theory Spec2Isabelle
  imports Main "HOL-Library.Word" "HOL-Library.AList"
begin

section \<open>Vanessa: the connection-dispatch engine of an intercepting proxy\<close>

text \<open>
  A shallow embedding of the class \<open>Vanessa\<close> (the core file of the repository), of
  \<open>middleware/server-side/proxy.js\<close> and of \<open>middleware/client-side/proxy.js\<close>.
  JavaScript objects used as dictionaries are association lists or maps, \<open>undefined\<close>
  is \<open>None\<close>, and the calls made on sockets, listeners and agents are recorded in a
  trace of operations.
\<close>

subsection \<open>JavaScript strings and values\<close>

text \<open>
  Truthiness of a value that is a string or \<open>undefined\<close>: the empty string and
  \<open>undefined\<close> are falsy. \<open>nonempty v\<close> is the string behind a truthy \<open>v\<close>.
\<close>

definition truthy :: "string option \<Rightarrow> bool" where
  "truthy v = (case v of None \<Rightarrow> False | Some s \<Rightarrow> s \<noteq> [])"

definition nonempty :: "string option \<Rightarrow> string option" where
  "nonempty v = (case v of None \<Rightarrow> None | Some s \<Rightarrow> if s = [] then None else Some s)"

text \<open>\<open>a || b\<close> on values that are strings or \<open>undefined\<close>.\<close>

definition js_or :: "string option \<Rightarrow> string option \<Rightarrow> string option" where
  "js_or a b = (if truthy a then a else b)"

text \<open>String concatenation turns \<open>undefined\<close> into the text \<open>undefined\<close>.\<close>

definition js_str :: "string option \<Rightarrow> string" where
  "js_str v = (case v of None \<Rightarrow> ''undefined'' | Some s \<Rightarrow> s)"




subsection \<open>The wildcard key of a hostname\<close>

text \<open>
  \<open>hostname.replace(/[^\.]+\./, '*.')\<close> replaces the leftmost match of the pattern: one
  or more characters other than a dot, followed by a dot. \<open>match_label s\<close> matches the
  pattern at the start of \<open>s\<close> and returns what follows the match; the greedy run of
  non-dots has to be followed by a dot, since a shorter run is followed by a non-dot.
\<close>

definition match_label :: "string \<Rightarrow> string option" where
  "match_label s =
     (let label = takeWhile (\<lambda>c. c \<noteq> CHR ''.'') s;
          rest = dropWhile (\<lambda>c. c \<noteq> CHR ''.'') s
      in if label \<noteq> [] \<and> rest \<noteq> [] then Some (tl rest) else None)"

fun replace_first_label :: "string \<Rightarrow> string" where
  "replace_first_label [] = []"
| "replace_first_label (c # cs) =
     (case match_label (c # cs) of
        Some rest \<Rightarrow> ''*.'' @ rest
      | None \<Rightarrow> c # replace_first_label cs)"

definition wildcardHost :: "string \<Rightarrow> string" where
  "wildcardHost hostname = replace_first_label hostname"

text \<open>\<open>req.url.split(':', 2)[0]\<close>: the text before the first colon.\<close>

definition hostname_of_url :: "string \<Rightarrow> string" where
  "hostname_of_url u = takeWhile (\<lambda>c. c \<noteq> CHR '':'') u"

subsection \<open>The WebSocket bridge: close propagation\<close>

datatype error = TypeError | LeaveCalledTooManyTimes

datatype readyState = CONNECTING | OPEN | CLOSING | CLOSED

datatype ws_side = ClientToProxy | ProxyToServer

text \<open>\<open>WsClose side code message\<close> is the call \<open>close(code, message)\<close> on that side.\<close>

datatype ws_op = WsClose ws_side int string

text \<open>
  The context of one bridge. The two sockets are represented by their \<open>readyState\<close>;
  \<open>proxyToServerWebSocket\<close> is \<open>null\<close> until the upstream socket has been created,
  and the two flags are \<open>undefined\<close> until the first close.
\<close>

record ws_ctx =
  clientToProxyWebSocket :: readyState
  proxyToServerWebSocket :: "readyState option"
  closedByServer :: "bool option"
  closedByClient :: "bool option"

definition flag_set :: "bool option \<Rightarrow> bool" where
  "flag_set f = (f = Some True)"

text \<open>
  \<open>_onWebSocketClose(ctx, closedByServer, code, message)\<close>. The result is the context,
  the calls made, and the exception thrown, if any (reading \<open>readyState\<close> of \<open>null\<close>).
\<close>

definition onWebSocketClose ::
  "ws_ctx \<Rightarrow> bool \<Rightarrow> int \<Rightarrow> string \<Rightarrow> ws_ctx \<times> ws_op list \<times> error option" where
  "onWebSocketClose ctx fromServer code message =
     (if \<not> flag_set (closedByServer ctx) \<and> \<not> flag_set (closedByClient ctx) then
        let ctx' = ctx\<lparr>closedByServer := Some fromServer, closedByClient := Some (\<not> fromServer)\<rparr>;
            code' = (if code \<ge> 1004 \<and> code \<le> 1006 then 1001 else code);
            client = clientToProxyWebSocket ctx'
        in (case proxyToServerWebSocket ctx' of
              None \<Rightarrow> (ctx', [], Some TypeError)
            | Some upstream \<Rightarrow>
                if client \<noteq> upstream then
                  if client = CLOSED \<and> upstream = OPEN then
                    (ctx', [WsClose ProxyToServer code' message], None)
                  else if upstream = CLOSED \<and> client = OPEN then
                    (ctx', [WsClose ClientToProxy code' message], None)
                  else (ctx', [], None)
                else (ctx', [], None))
      else (ctx, [], None))"

subsection \<open>The upstream agent selector\<close>

record proxy_config =
  http :: "string option"
  https :: "string option"
  socks :: "string option"
  pac :: "string option"

datatype agent =
    PACAgent string | SOCKSAgent string | HTTPSAgent string | HTTPAgent string
  | https_Agent | http_Agent

record proxy_summary =
  proxy_type :: string
  proxy_address :: string

text \<open>
  The part of the request context the selector reads and writes: \<open>ctx.proxy\<close>,
  \<open>ctx.protocol\<close>, \<open>ctx.hostname\<close>, \<open>ctx.summary.proxy\<close> and
  \<open>ctx.requestOptions.agent\<close>.
\<close>

record request_context =
  proxy :: proxy_config
  protocol :: string
  ctx_hostname :: string
  summary_proxy :: "proxy_summary option"
  requestOptions_agent :: "agent option"










text \<open>
  The callback installed on the PAC agent. \<open>connect\<close> is the agent's original callback;
  the options are an object or \<open>undefined\<close>.
\<close>

datatype jsval = JStr string | JNum int | JBool bool

type_synonym options = "string \<rightharpoonup> jsval"

definition Object_assign :: "options \<Rightarrow> options \<Rightarrow> options" where
  "Object_assign target source = target ++ source"

definition pac_options :: "request_context \<Rightarrow> options option \<Rightarrow> options" where
  "pac_options ctx opts =
     Object_assign (case opts of None \<Rightarrow> Map.empty | Some given \<Rightarrow> given)
       [''servername'' \<mapsto> JStr (ctx_hostname ctx)]"

definition pac_agent_callback ::
  "request_context \<Rightarrow> ('r \<Rightarrow> options \<Rightarrow> 'f \<Rightarrow> 'a) \<Rightarrow> 'r \<Rightarrow> options option \<Rightarrow> 'f \<Rightarrow> 'a" where
  "pac_agent_callback ctx connect r opts fn = connect r (pac_options ctx opts) fn"

subsection \<open>The system-proxy resolver\<close>

text \<open>
  \<open>trim\<close> removes white space and line terminators at both ends. A \<open>char\<close> is a code
  unit below 256; the white space of JavaScript among these is tab, line feed, vertical
  tab, form feed, carriage return, space and the no-break space U+00A0.
\<close>

definition is_space :: "char \<Rightarrow> bool" where
  "is_space c =
     (c \<in> set [CHR 0x09, CHR 0x0A, CHR 0x0B, CHR 0x0C, CHR 0x0D, CHR '' '', CHR 0xA0])"

definition trim :: "string \<Rightarrow> string" where
  "trim s = rev (dropWhile is_space (rev (dropWhile is_space s)))"

text \<open>
  \<open>s.split(sep)\<close> for a non-empty separator: the pieces between the occurrences of
  \<open>sep\<close>, found from the left. \<open>cur\<close> is the current piece, reversed.
\<close>

function split_sep :: "string \<Rightarrow> string \<Rightarrow> string \<Rightarrow> string list" where
  "split_sep sep cur [] = [rev cur]"
| "split_sep sep cur (c # cs) =
     (if sep \<noteq> [] \<and> take (length sep) (c # cs) = sep
      then rev cur # split_sep sep [] (drop (length sep) (c # cs))
      else split_sep sep (c # cur) cs)"
  by pat_completeness auto
termination
  by (relation "measure (\<lambda>(sep, cur, s). length s)") auto

definition js_split :: "string \<Rightarrow> string \<Rightarrow> string list" where
  "js_split s sep = split_sep sep [] s"

text \<open>
  \<open>res[key] = value\<close> on a plain object, for a string value: assigning a string to
  \<open>__proto__\<close> changes nothing.
\<close>

definition js_set :: "(string \<rightharpoonup> string) \<Rightarrow> string \<Rightarrow> string \<Rightarrow> (string \<rightharpoonup> string)" where
  "js_set res key v = (if key = ''__proto__'' then res else res(key \<mapsto> v))"

text \<open>
  The \<open>forEach\<close> over the lines of the \<open>scutil --proxy\<close> output. A line without the
  separator gives \<open>value = undefined\<close>, \<open>value.trim()\<close> throws, and the surrounding
  \<open>try\<close> ends the loop with the entries read so far.
\<close>

fun parse_scutil :: "string list \<Rightarrow> (string \<rightharpoonup> string) \<Rightarrow> (string \<rightharpoonup> string)" where
  "parse_scutil [] res = res"
| "parse_scutil (k # ks) res =
     (case js_split k '' : '' of
        key # v # _ \<Rightarrow> parse_scutil ks (js_set res (trim key) (trim v))
      | _ \<Rightarrow> res)"

text \<open>
  The settings read from the operating system. The argument is the text printed by
  \<open>scutil --proxy\<close>, or \<open>None\<close> when \<open>execSync\<close> throws; \<open>slice(1, -1)\<close> drops the
  first and the last line.
\<close>

definition scutil_settings :: "string option \<Rightarrow> (string \<rightharpoonup> string)" where
  "scutil_settings out =
     (case out of
        None \<Rightarrow> Map.empty
      | Some text \<Rightarrow> parse_scutil (butlast (tl (js_split (trim text) [CHR 0x0A]))) Map.empty)"

text \<open>\<open>getSystemProxy\<close>, as a function of the \<open>scutil\<close> output and of \<open>process.env\<close>.\<close>

definition getSystemProxy :: "string option \<Rightarrow> (string \<rightharpoonup> string) \<Rightarrow> proxy_config" where
  "getSystemProxy scutil env =
     (let res = scutil_settings scutil in
      \<lparr>http =
         (case nonempty (res ''HTTPProxy'') of
            Some host \<Rightarrow> Some (''http://'' @ host @ '':'' @ js_str (res ''HTTPPort''))
          | None \<Rightarrow> js_or (env ''HTTP_PROXY'') (env ''http_proxy'')),
       https =
         (case nonempty (res ''HTTPSProxy'') of
            Some host \<Rightarrow> Some (''https://'' @ host @ '':'' @ js_str (res ''HTTPSPort''))
          | None \<Rightarrow> js_or (env ''HTTPS_PROXY'') (env ''https_proxy'')),
       socks =
         (case nonempty (res ''SOCKSProxy'') of
            Some host \<Rightarrow> Some (''socks://'' @ host @ '':'' @ js_str (res ''SOCKSPort''))
          | None \<Rightarrow> js_or (env ''ALL_PROXY'') (env ''all_proxy'')),
       pac = nonempty (res ''ProxyAutoConfigURLString'')\<rparr>)"

text \<open>
  Two outputs of \<open>scutil --proxy\<close> with the same HTTP proxy and PAC URL; the second
  prints the list of exceptions, a nested block, before them.
\<close>

definition scutil_http :: string where
  "scutil_http =
     ''<dictionary> {'' @ [CHR 0x0A] @
     ''  HTTPEnable : 1'' @ [CHR 0x0A] @
     ''  HTTPPort : 8080'' @ [CHR 0x0A] @
     ''  HTTPProxy : 127.0.0.1'' @ [CHR 0x0A] @
     ''  ProxyAutoConfigURLString : http://wpad/proxy.pac'' @ [CHR 0x0A] @
     ''}'' @ [CHR 0x0A]"

definition scutil_exceptions :: string where
  "scutil_exceptions =
     ''<dictionary> {'' @ [CHR 0x0A] @
     ''  ExceptionsList : <array> {'' @ [CHR 0x0A] @
     ''    0 : *.local'' @ [CHR 0x0A] @
     ''  }'' @ [CHR 0x0A] @
     ''  HTTPEnable : 1'' @ [CHR 0x0A] @
     ''  HTTPPort : 8080'' @ [CHR 0x0A] @
     ''  HTTPProxy : 127.0.0.1'' @ [CHR 0x0A] @
     ''  ProxyAutoConfigURLString : http://wpad/proxy.pac'' @ [CHR 0x0A] @
     ''}'' @ [CHR 0x0A]"

subsection \<open>The state of the proxy\<close>

type_synonym byte = "8 word"

record socket =
  localPort :: nat
  remotePort :: nat

text \<open>A request: its \<open>url\<close> and the socket it arrived on (\<open>req.socket\<close>).\<close>

record request =
  url :: string
  req_socket :: socket

text \<open>
  The arguments \<open>(req, socket, head)\<close> of one call of \<open>_onHttpServerConnectData\<close>, which
  the closures created by that call capture; \<open>socket\<close> is the socket of \<open>req\<close>.
\<close>

record connect_args =
  connect_req :: request
  connect_head :: "byte list"

text \<open>
  An entry of \<open>sslServers\<close>. Listeners are identified by a number. The \<open>port\<close> field
  holds whatever the code stores there: a number, an object, or nothing.
\<close>

datatype sslServer =
  SslServer (server: "nat option") (wsServer: "nat option") (port: jsport)
and jsport = PortNumber nat | PortObject sslServer | PortUndefined

text \<open>
  Modelled from the spec: the \<open>semaphore\<close> package, a dependency that is not among
  the sources. A semaphore has a number of slots and a strict first-in first-out queue:
  \<open>take\<close> runs the task at once when \<open>current + 1\<close> does not exceed the capacity and
  appends it to the queue otherwise; \<open>leave\<close> decrements \<open>current\<close> and hands the
  slot to the head of the queue, whose task it schedules with \<open>nextTick\<close>. A queued
  task is represented by the arguments its closure captures.
\<close>

record semaphore =
  capacity :: nat
  current :: int
  queue :: "connect_args list"

definition new_semaphore :: "nat \<Rightarrow> semaphore" where
  "new_semaphore n = \<lparr>capacity = n, current = 0, queue = []\<rparr>"

record http_server =
  address :: string
  http_port :: nat

text \<open>
  The fields of a \<open>Vanessa\<close> object. A field that is \<open>undefined\<close> (never set, or
  deleted) is \<open>None\<close>. \<open>sslServers\<close> keeps its keys in insertion order, the order
  in which \<open>Object.keys\<close> lists hostnames (a hostname that is a canonical array index
  would be listed first; nothing below depends on the order).
\<close>

record vanessa =
  httpServer :: "http_server option"
  httpsServer :: "nat option"
  wssServer :: "nat option"
  sslServers :: "(string \<times> sslServer) list option"
  sslSemaphores :: "string \<rightharpoonup> semaphore"
  connectRequests :: "string \<rightharpoonup> request"

text \<open>Callbacks that have been scheduled and have not run yet.\<close>

datatype task =
    TakeTask connect_args
  | LeaveTask string
  | ListenTask nat connect_args

text \<open>
  The calls made on listeners and sockets, in the order they are made:
  \<open>https.createServer\<close> with \<open>options.hosts\<close>, \<open>listen\<close> on port 0 of a host,
  \<open>net.connect\<close> with the value given as the port for a tunnel (also when the call
  throws), \<open>close\<close> of the outer listener and of another
  listener, \<open>pipe\<close> of the client socket and the loopback connection into each other,
  the bytes written to the loopback connection with a key, and \<open>resume\<close>.
\<close>

datatype op =
    CreateServer nat "string list"
  | Listen nat string
  | NetConnect jsport connect_args
  | CloseHttpServer
  | CloseListener nat
  | Pipe string
  | Write string "byte list"
  | Resume string

text \<open>
  The proxy in its environment: the object, the scheduled callbacks, the calls made so
  far, and the identity of the next listener to be created.
\<close>

record world =
  app :: vanessa
  pending :: "task list"
  trace :: "op list"
  fresh :: nat

text \<open>A handler returns, or throws with the state as it is at the throw.\<close>

datatype outcome = Done world | Threw error world

definition world_of :: "outcome \<Rightarrow> world" where
  "world_of r = (case r of Done w \<Rightarrow> w | Threw e w \<Rightarrow> w)"

definition thrown :: "outcome \<Rightarrow> error option" where
  "thrown r = (case r of Done w \<Rightarrow> None | Threw e w \<Rightarrow> Some e)"

definition new_vanessa :: vanessa where
  "new_vanessa =
     \<lparr>httpServer = None, httpsServer = None, wssServer = None, sslServers = None,
      sslSemaphores = Map.empty, connectRequests = Map.empty\<rparr>"

text \<open>\<open>listen\<close>, with the address and the port the outer listener is bound to.\<close>

definition listen :: "string \<Rightarrow> nat \<Rightarrow> vanessa \<Rightarrow> vanessa" where
  "listen host p this =
     this\<lparr>sslServers := Some [], sslSemaphores := Map.empty, connectRequests := Map.empty,
          httpServer := Some \<lparr>address = host, http_port = p\<rparr>\<rparr>"

definition listening :: "string \<Rightarrow> nat \<Rightarrow> world" where
  "listening host p = \<lparr>app = listen host p new_vanessa, pending = [], trace = [], fresh = 0\<rparr>"

definition pool_of :: "world \<Rightarrow> (string \<times> sslServer) list" where
  "pool_of w = (case sslServers (app w) of None \<Rightarrow> [] | Some pool \<Rightarrow> pool)"

subsection \<open>Shutdown\<close>

text \<open>The \<open>forEach\<close> of \<open>close\<close>: the closes made for the entries of the pool.\<close>

fun close_pool :: "(string \<times> sslServer) list \<Rightarrow> op list" where
  "close_pool [] = []"
| "close_pool ((srvName, entry) # rest) =
     (case server entry of Some l \<Rightarrow> [CloseListener l] | None \<Rightarrow> []) @ close_pool rest"

definition close :: "world \<Rightarrow> outcome" where
  "close w =
     (case httpServer (app w) of
        None \<Rightarrow> Threw TypeError w
      | Some outer \<Rightarrow>
          let w1 = w\<lparr>app := (app w)\<lparr>httpServer := None\<rparr>, trace := trace w @ [CloseHttpServer]\<rparr>;
              w2 = (case httpsServer (app w1) of
                      Some l \<Rightarrow>
                        w1\<lparr>app := (app w1)\<lparr>httpsServer := None, wssServer := None,
                                            sslServers := None\<rparr>,
                           trace := trace w1 @ [CloseListener l]\<rparr>
                    | None \<Rightarrow> w1);
              w3 = (case sslServers (app w2) of
                      Some pool \<Rightarrow>
                        w2\<lparr>app := (app w2)\<lparr>sslServers := Some []\<rparr>,
                           trace := trace w2 @ close_pool pool\<rparr>
                    | None \<Rightarrow> w2)
          in Done w3)"

subsection \<open>The CONNECT dispatcher and the SSL server pool\<close>

text \<open>
  Reading \<open>this.sslServers[name]\<close>: an own entry, or, for the names every object
  inherits from \<open>Object.prototype\<close>, the inherited value, which is truthy and has no
  \<open>server\<close>, \<open>wsServer\<close> or \<open>port\<close>.
\<close>

definition Object_prototype_names :: "string list" where
  "Object_prototype_names =
     [''constructor'', ''__defineGetter__'', ''__defineSetter__'', ''hasOwnProperty'',
      ''__lookupGetter__'', ''__lookupSetter__'', ''isPrototypeOf'',
      ''propertyIsEnumerable'', ''toString'', ''valueOf'', ''__proto__'',
      ''toLocaleString'']"

definition inherited_value :: sslServer where
  "inherited_value = SslServer None None PortUndefined"

definition pool_get :: "(string \<times> sslServer) list \<Rightarrow> string \<Rightarrow> sslServer option" where
  "pool_get pool name =
     (case map_of pool name of
        Some entry \<Rightarrow> Some entry
      | None \<Rightarrow> if name \<in> set Object_prototype_names then Some inherited_value else None)"

definition set_pool :: "string \<Rightarrow> sslServer \<Rightarrow> world \<Rightarrow> world" where
  "set_pool name entry w =
     w\<lparr>app := (app w)\<lparr>sslServers := Some (AList.update name entry (pool_of w))\<rparr>\<rparr>"

definition set_semaphore :: "string \<Rightarrow> semaphore \<Rightarrow> world \<Rightarrow> world" where
  "set_semaphore key sem w =
     w\<lparr>app := (app w)\<lparr>sslSemaphores := (sslSemaphores (app w))(key \<mapsto> sem)\<rparr>\<rparr>"

definition nextTick :: "task \<Rightarrow> world \<Rightarrow> world" where
  "nextTick t w = w\<lparr>pending := pending w @ [t]\<rparr>"

definition call :: "op list \<Rightarrow> world \<Rightarrow> world" where
  "call ops w = w\<lparr>trace := trace w @ ops\<rparr>"

text \<open>The first-byte test of \<open>_onHttpServerConnectData\<close>; \<open>head[0]\<close> of an empty buffer
  is \<open>undefined\<close>, which equals none of the three values.\<close>

definition is_tls :: "byte list \<Rightarrow> bool" where
  "is_tls bytes = (case bytes of [] \<Rightarrow> False | b # _ \<Rightarrow> b = 0x16 \<or> b = 0x80 \<or> b = 0x00)"

text \<open>
  \<open>makeConnection(port)\<close>: the call of \<open>net.connect\<close> for the tunnel. \<open>net.connect\<close>
  throws a TypeError, before it opens anything, when the port is an object, and also, in
  current versions of Node, when the port is \<open>undefined\<close>; the exception leaves
  \<open>makeConnection\<close> and its caller.
\<close>

definition makeConnection :: "jsport \<Rightarrow> connect_args \<Rightarrow> world \<Rightarrow> outcome" where
  "makeConnection p c w =
     (case p of
        PortNumber n \<Rightarrow> Done (call [NetConnect p c] w)
      | PortObject entry \<Rightarrow> Threw TypeError (call [NetConnect p c] w)
      | PortUndefined \<Rightarrow> Threw TypeError (call [NetConnect p c] w))"

text \<open>
  The callback given to \<open>sem.take\<close>, for the semaphore of the wildcard key. Creating the
  listener takes its identity from \<open>fresh\<close>; the callback of \<open>listen\<close> is scheduled.
  The certificate \<open>ca[hostname]\<close> given to the new listener is not part of the model.
\<close>

definition take_callback :: "connect_args \<Rightarrow> world \<Rightarrow> outcome" where
  "take_callback c w =
     (let hostname = hostname_of_url (url (connect_req c));
          wildcard = wildcardHost hostname
      in case sslServers (app w) of
           None \<Rightarrow> Threw TypeError w
         | Some pool \<Rightarrow>
            (case pool_get pool hostname of
               Some entry \<Rightarrow>
                 makeConnection (port entry) c (nextTick (LeaveTask wildcard) w)
             | None \<Rightarrow>
                (case pool_get pool wildcard of
                   Some entry \<Rightarrow>
                     let alias = SslServer None None (PortObject entry)
                     in makeConnection (port alias) c
                          (set_pool hostname alias (nextTick (LeaveTask wildcard) w))
                 | None \<Rightarrow>
                    let l = fresh w;
                        w1 = call [CreateServer l [hostname]] (w\<lparr>fresh := Suc l\<rparr>)
                    in case httpServer (app w1) of
                         None \<Rightarrow> Threw TypeError w1
                       | Some outer \<Rightarrow>
                           Done (nextTick (ListenTask l c)
                                  (call [Listen l (address outer)] w1)))))"

text \<open>
  The callback of \<open>httpsServer.listen\<close> for the listener \<open>l\<close>, with the port the
  operating system has bound it to.
\<close>

definition listen_callback :: "nat \<Rightarrow> connect_args \<Rightarrow> nat \<Rightarrow> world \<Rightarrow> outcome" where
  "listen_callback l c p w =
     (let hostname = hostname_of_url (url (connect_req c));
          wildcard = wildcardHost hostname;
          sslServer = SslServer (Some l) (Some l) (PortNumber p)
      in case sslServers (app w) of
           None \<Rightarrow> Threw TypeError w
         | Some pool \<Rightarrow>
             makeConnection (port sslServer) c
               (nextTick (LeaveTask wildcard) (set_pool hostname sslServer w)))"

text \<open>
  Modelled from the spec: \<open>sem.take(callback)\<close> of the \<open>semaphore\<close> package, on the
  semaphore stored under \<open>key\<close>, which \<open>_onHttpServerConnectData\<close> creates with one
  slot when it is absent.
\<close>

definition sem_take :: "string \<Rightarrow> connect_args \<Rightarrow> world \<Rightarrow> outcome" where
  "sem_take key c w =
     (let sem = (case sslSemaphores (app w) key of
                   None \<Rightarrow> new_semaphore 1
                 | Some existing \<Rightarrow> existing)
      in if current sem + 1 > int (capacity sem) then
           Done (set_semaphore key (sem\<lparr>queue := queue sem @ [c]\<rparr>) w)
         else take_callback c (set_semaphore key (sem\<lparr>current := current sem + 1\<rparr>) w))"

text \<open>
  Modelled from the spec: \<open>sem.leave()\<close> of the \<open>semaphore\<close> package, on the
  semaphore stored under \<open>key\<close>; the package throws when \<open>leave\<close> is called more often
  than \<open>take\<close>.
\<close>

definition sem_leave :: "string \<Rightarrow> world \<Rightarrow> outcome" where
  "sem_leave key w =
     (case sslSemaphores (app w) key of
        None \<Rightarrow> Done w
      | Some sem \<Rightarrow>
          let sem1 = sem\<lparr>current := current sem - 1\<rparr>
          in case queue sem1 of
               [] \<Rightarrow>
                 if current sem1 < 0
                 then Threw LeaveCalledTooManyTimes (set_semaphore key sem1 w)
                 else Done (set_semaphore key sem1 w)
             | item # rest \<Rightarrow>
                 if 1 + current sem1 > int (capacity sem1)
                 then Done (set_semaphore key sem1 w)
                 else Done (nextTick (TakeTask item)
                             (set_semaphore key
                                (sem1\<lparr>queue := rest, current := current sem1 + 1\<rparr>) w)))"

text \<open>\<open>_onHttpServerConnectData(req, socket, head)\<close>.\<close>

definition onHttpServerConnectData :: "connect_args \<Rightarrow> world \<Rightarrow> outcome" where
  "onHttpServerConnectData c w =
     (if is_tls (connect_head c) then
        let hostname = hostname_of_url (url (connect_req c))
        in case sslServers (app w) of
             None \<Rightarrow> Threw TypeError w
           | Some pool \<Rightarrow>
               (case pool_get pool hostname of
                  Some sslServer \<Rightarrow> makeConnection (port sslServer) c w
                | None \<Rightarrow> sem_take (wildcardHost hostname) c w)
      else
        case httpServer (app w) of
          None \<Rightarrow> Threw TypeError w
        | Some outer \<Rightarrow> makeConnection (PortNumber (http_port outer)) c w)"

subsection \<open>The event loop\<close>

text \<open>
  What the environment does next: it delivers the first bytes of a CONNECT tunnel, or it
  runs one of the scheduled callbacks, chosen by its position; the number given with it
  is the port the operating system has bound a listener to, read by the callback of
  \<open>listen\<close>. An exception that leaves a handler is uncaught and ends the run.
\<close>

datatype event = Connect connect_args | Run nat nat

definition step :: "event \<Rightarrow> world \<Rightarrow> outcome" where
  "step e w =
     (case e of
        Connect c \<Rightarrow> onHttpServerConnectData c w
      | Run i p \<Rightarrow>
          if i < length (pending w) then
            let w' = w\<lparr>pending := take i (pending w) @ drop (Suc i) (pending w)\<rparr>
            in case pending w ! i of
                 TakeTask c \<Rightarrow> take_callback c w'
               | LeaveTask key \<Rightarrow> sem_leave key w'
               | ListenTask l c \<Rightarrow> listen_callback l c p w'
          else Done w)"

fun exec :: "event list \<Rightarrow> world \<Rightarrow> outcome" where
  "exec [] w = Done w"
| "exec (e # es) w =
     (case step e w of
        Done w' \<Rightarrow> exec es w'
      | Threw err w' \<Rightarrow> Threw err w')"

text \<open>The hostnames for which a listener has been created, one for each creation.\<close>

fun created :: "op list \<Rightarrow> string list" where
  "created [] = []"
| "created (CreateServer l hosts # ops) = hosts @ created ops"
| "created (other # ops) = created ops"

subsection \<open>The tunnel and the CONNECT registry\<close>







text \<open>
  The socket the inner listener accepts for \<open>conn\<close>: the other end of the same loopback
  connection, with the two ports exchanged.
\<close>

definition accepted :: "socket \<Rightarrow> socket" where
  "accepted conn = \<lparr>localPort = remotePort conn, remotePort = localPort conn\<rparr>"







subsection \<open>Example runs\<close>

text \<open>A CONNECT whose first bytes are the start of a TLS handshake record.\<close>

definition tls_connect :: "string \<Rightarrow> nat \<Rightarrow> connect_args" where
  "tls_connect u p =
     \<lparr>connect_req = \<lparr>url = u, req_socket = \<lparr>localPort = 8080, remotePort = p\<rparr>\<rparr>,
      connect_head = [0x16, 0x03, 0x01]\<rparr>"

text \<open>
  A CONNECT to the hostname \<open>*.example.com\<close>, the callback of \<open>listen\<close> for its
  listener, the release of the semaphore, and then a CONNECT to \<open>a.example.com\<close>.
\<close>

definition alias_run :: outcome where
  "alias_run =
     exec [Connect (tls_connect ''*.example.com:443'' 50001), Run 0 8443, Run 0 0,
           Connect (tls_connect ''a.example.com:443'' 50002)]
       (listening ''127.0.0.1'' 8080)"

text \<open>The ports given to \<open>net.connect\<close> for one tunnel.\<close>

fun connect_ports :: "connect_args \<Rightarrow> op list \<Rightarrow> jsport list" where
  "connect_ports c [] = []"
| "connect_ports c (NetConnect p c' # ops) =
     (if c' = c then p # connect_ports c ops else connect_ports c ops)"
| "connect_ports c (other # ops) = connect_ports c ops"

text \<open>A proxy with one pool listener, and \<open>close\<close> called once and twice.\<close>

definition one_listener :: world where
  "one_listener =
     world_of (exec [Connect (tls_connect ''a.example.com:443'' 50001), Run 0 8443]
                 (listening ''127.0.0.1'' 8080))"

definition closed_once :: world where
  "closed_once = world_of (close one_listener)"

text \<open>
  CONNECTs to \<open>a.example.com\<close> and to \<open>b.example.com\<close> arrive together; then the
  callback of \<open>listen\<close> for the first listener, the deferred \<open>leave\<close>, and the
  \<open>take\<close> callback of the second tunnel run.
\<close>

definition two_hosts_run :: outcome where
  "two_hosts_run =
     exec [Connect (tls_connect ''a.example.com:443'' 50001),
           Connect (tls_connect ''b.example.com:443'' 50002),
           Run 0 8443, Run 0 0, Run 0 0]
       (listening ''127.0.0.1'' 8080)"

text \<open>
  CONNECTs to \<open>a.example.com\<close> and to \<open>b.example.com\<close> arrive together, and every
  callback runs: the callback of \<open>listen\<close> and the deferred \<open>leave\<close> for the first
  listener, the \<open>take\<close> callback of the second tunnel, and the callback of \<open>listen\<close>
  and the deferred \<open>leave\<close> for the second listener.
\<close>

definition settled_events :: "event list" where
  "settled_events =
     [Connect (tls_connect ''a.example.com:443'' 50001),
      Connect (tls_connect ''b.example.com:443'' 50002),
      Run 0 8443, Run 0 0, Run 0 0, Run 0 8444, Run 0 0]"

text \<open>Two CONNECTs to \<open>a.example.com\<close> arrive together; no callback has run yet.\<close>

definition same_host_events :: "event list" where
  "same_host_events =
     [Connect (tls_connect ''a.example.com:443'' 50001),
      Connect (tls_connect ''a.example.com:443'' 50002)]"

lemmas run_defs = tls_connect_def listening_def listen_def new_vanessa_def step_def
  onHttpServerConnectData_def is_tls_def hostname_of_url_def pool_get_def Object_prototype_names_def
  sem_take_def new_semaphore_def set_semaphore_def take_callback_def wildcardHost_def match_label_def
  call_def nextTick_def makeConnection_def listen_callback_def set_pool_def pool_of_def sem_leave_def
  thrown_def world_of_def Let_def inherited_value_def

subsection \<open>The single-flight invariant\<close>

text \<open>
  The hostname and the wildcard key of a tunnel, the semaphore a scheduled callback
  holds a slot of, and the hostnames a scheduled callback may create or bind a listener
  for. Every scheduled callback holds the slot of one semaphore: a granted \<open>take\<close>
  callback, a \<open>listen\<close> callback, and a deferred \<open>leave\<close>.
\<close>

definition host_of :: "connect_args \<Rightarrow> string" where
  "host_of c = hostname_of_url (url (connect_req c))"

definition key_of :: "connect_args \<Rightarrow> string" where
  "key_of c = wildcardHost (host_of c)"

fun task_key :: "task \<Rightarrow> string" where
  "task_key (TakeTask c) = key_of c"
| "task_key (LeaveTask key) = key"
| "task_key (ListenTask l c) = key_of c"

fun task_hosts :: "task \<Rightarrow> string list" where
  "task_hosts (TakeTask c) = [host_of c]"
| "task_hosts (LeaveTask key) = []"
| "task_hosts (ListenTask l c) = [host_of c]"

fun binds :: "string \<Rightarrow> task \<Rightarrow> bool" where
  "binds h (ListenTask l c) = (host_of c = h)"
| "binds h other = False"

fun takes :: "string \<Rightarrow> task \<Rightarrow> bool" where
  "takes h (TakeTask c) = (host_of c = h)"
| "takes h other = False"

definition holders :: "task list \<Rightarrow> string \<Rightarrow> nat" where
  "holders ts key = length (filter (\<lambda>t. task_key t = key) ts)"

text \<open>
  A semaphore agrees with the callbacks \<open>ts\<close> that hold its slot: there is at most one
  of them, \<open>current\<close> counts them, tasks wait only while the slot is held, and the
  waiting tasks belong to this key and to the hostnames \<open>H\<close>.
\<close>

definition sem_ok :: "string set \<Rightarrow> task list \<Rightarrow> string \<Rightarrow> semaphore option \<Rightarrow> bool" where
  "sem_ok H ts key so =
     (case so of
        None \<Rightarrow> holders ts key = 0
      | Some sem \<Rightarrow>
          capacity sem = 1 \<and> current sem = int (holders ts key) \<and> holders ts key \<le> 1 \<and>
          (queue sem \<noteq> [] \<longrightarrow> holders ts key = 1) \<and>
          (\<forall>c \<in> set (queue sem). key_of c = key \<and> host_of c \<in> H))"

text \<open>A tunnel for the hostname \<open>h\<close> waits in the queue of a semaphore.\<close>

definition queued :: "world \<Rightarrow> string \<Rightarrow> bool" where
  "queued w h =
     (\<exists>key sem c. sslSemaphores (app w) key = Some sem \<and> c \<in> set (queue sem) \<and> host_of c = h)"

text \<open>
  The invariant of the pool, for the callbacks \<open>ts\<close> that hold a slot, the hostnames
  \<open>S\<close> that have received a TLS tunnel, and the hostnames \<open>H\<close> that may receive one:
  the proxy is listening; every semaphore agrees with \<open>ts\<close>; no hostname has had two
  listeners created; a hostname with a created listener has its pool entry or a \<open>listen\<close>
  callback that will store it, and only such hostnames have a \<open>listen\<close> callback; every
  pool entry belongs to a hostname with a created listener and has a number as its port;
  and a hostname of \<open>S\<close> has a created listener or a tunnel that still waits for the
  semaphore.
\<close>

definition pool_inv :: "string set \<Rightarrow> string set \<Rightarrow> task list \<Rightarrow> world \<Rightarrow> bool" where
  "pool_inv S H ts w =
     (sslServers (app w) \<noteq> None \<and> httpServer (app w) \<noteq> None \<and>
      (\<forall>key. sem_ok H ts key (sslSemaphores (app w) key)) \<and>
      distinct (created (trace w)) \<and>
      (\<forall>h \<in> set (created (trace w)). map_of (pool_of w) h \<noteq> None \<or> (\<exists>t \<in> set ts. binds h t)) \<and>
      set (created (trace w)) \<subseteq> H \<and>
      (\<forall>t \<in> set ts. set (task_hosts t) \<subseteq> H) \<and>
      (\<forall>t \<in> set ts. \<forall>h. binds h t \<longrightarrow> h \<in> set (created (trace w))) \<and>
      (\<forall>name entry. map_of (pool_of w) name = Some entry \<longrightarrow>
          name \<in> set (created (trace w)) \<and> (\<exists>n. port entry = PortNumber n)) \<and>
      (\<forall>h \<in> S. h \<in> set (created (trace w)) \<or> (\<exists>t \<in> set ts. takes h t) \<or> queued w h))"

text \<open>
  Hostnames with which no handler throws: none is a name inherited from
  \<open>Object.prototype\<close>, and none has a wildcard key, other than itself, that is one of
  the hostnames.
\<close>

definition safe_hosts :: "string set \<Rightarrow> bool" where
  "safe_hosts H =
     (\<forall>h \<in> H. h \<notin> set Object_prototype_names \<and> (wildcardHost h \<in> H \<longrightarrow> wildcardHost h = h))"

text \<open>The hostnames that receive a TLS tunnel in a run.\<close>

fun event_hosts :: "event \<Rightarrow> string set" where
  "event_hosts (Connect c) = (if is_tls (connect_head c) then {host_of c} else {})"
| "event_hosts (Run i p) = {}"

definition tls_hosts :: "event list \<Rightarrow> string set" where
  "tls_hosts evs = (\<Union>e \<in> set evs. event_hosts e)"

text \<open>
  What a handler or a run leaves behind when it starts in \<open>w\<close>: it returns with the
  invariant and a longer trace, or it throws, which it can do only when the hostnames
  are not safe, having created no listener twice.
\<close>

definition run_ok :: "string set \<Rightarrow> string set \<Rightarrow> world \<Rightarrow> outcome \<Rightarrow> bool" where
  "run_ok S H w r =
     (case r of
        Done w' \<Rightarrow> pool_inv S H (pending w') w' \<and> (\<exists>ops. trace w' = trace w @ ops)
      | Threw e w' \<Rightarrow>
          distinct (created (trace w')) \<and> set (created (trace w')) \<subseteq> H \<and>
          (\<exists>ops. trace w' = trace w @ ops) \<and> \<not> safe_hosts H)"

section \<open>Properties\<close>

subsection \<open>Facts about the wildcard key\<close>

lemma match_label_no_dot:
  "CHR ''.'' \<notin> set s \<Longrightarrow> match_label s = None"
proof -
  assume "CHR ''.'' \<notin> set s"
  then have "dropWhile (\<lambda>c. c \<noteq> CHR ''.'') s = []"
    by (induction s) auto
  then show ?thesis
    by (simp add: match_label_def Let_def)
qed

lemma replace_first_label_no_dot:
  "CHR ''.'' \<notin> set s \<Longrightarrow> replace_first_label s = s"
proof (induction s)
  case Nil
  show ?case by simp
next
  case (Cons c cs)
  from Cons.prems have "match_label (c # cs) = None"
    by (rule match_label_no_dot)
  moreover from Cons have "replace_first_label cs = cs"
    by simp
  ultimately show ?case by simp
qed

lemma replace_first_label_keeps_dot:
  "CHR ''.'' \<in> set s \<Longrightarrow> CHR ''.'' \<in> set (replace_first_label s)"
proof (induction s)
  case Nil
  then show ?case by simp
next
  case (Cons c cs)
  show ?case
  proof (cases "match_label (c # cs)")
    case (Some rest)
    then show ?thesis by simp
  next
    case None
    with Cons show ?thesis by auto
  qed
qed

lemma wildcardHost_no_dot: "CHR ''.'' \<notin> set h \<Longrightarrow> wildcardHost h = h"
  by (simp add: wildcardHost_def replace_first_label_no_dot)

lemma wildcardHost_eq_no_dot:
  assumes nodot: "CHR ''.'' \<notin> set n" and eq: "wildcardHost other = n"
  shows "other = n"
proof -
  have "CHR ''.'' \<notin> set other"
  proof
    assume "CHR ''.'' \<in> set other"
    then have "CHR ''.'' \<in> set (replace_first_label other)"
      by (rule replace_first_label_keeps_dot)
    with eq nodot show False
      by (simp add: wildcardHost_def)
  qed
  then have "wildcardHost other = other"
    by (rule wildcardHost_no_dot)
  with eq show ?thesis by simp
qed

text \<open>
  C10. A hostname without a dot is its own wildcard key, and no other hostname has that
  key: the semaphore key is the concrete hostname, and the alias branch, which looks the
  pool up under the wildcard key, can never hand the listener of such a hostname to
  another one.
\<close>

theorem wildcardHost_single_label:
  "CHR ''.'' \<notin> set hostname \<Longrightarrow>
     wildcardHost hostname = hostname \<and>
     (\<forall>other. wildcardHost other = hostname \<longrightarrow> other = hostname)"
  using wildcardHost_no_dot wildcardHost_eq_no_dot by blast

theorem wildcardHost_single_label_witness:
  "CHR ''.'' \<notin> set ''localhost'' \<and> wildcardHost ''localhost'' = ''localhost'' \<and>
   wildcardHost ''a.localhost'' \<noteq> ''localhost''"
proof -
  have h: "CHR ''.'' \<notin> set ''localhost''" by simp
  have "''a.localhost'' \<noteq> ''localhost''" by simp
  with wildcardHost_single_label [OF h] show ?thesis using h by blast
qed

subsection \<open>Close propagation\<close>

text \<open>
  C8. A close with a code in 1004..1006 arrives from one side and no close has been
  recorded. If the closing side is CLOSED and the opposite side is OPEN, the opposite
  side is closed with code 1001. The close is recorded by setting \<open>closedByServer\<close> to
  the side and \<open>closedByClient\<close> to its negation, so exactly one of them is set, and
  any later close changes nothing and closes nothing.
\<close>

theorem onWebSocketClose_first_close:
  assumes code: "1004 \<le> c" "c \<le> 1006"
    and fresh: "\<not> flag_set (closedByServer ctx)" "\<not> flag_set (closedByClient ctx)"
    and upstream: "proxyToServerWebSocket ctx = Some upstream"
    and run: "onWebSocketClose ctx fromServer c m = (ctx', ops, err)"
  shows "(fromServer \<and> upstream = CLOSED \<and> clientToProxyWebSocket ctx = OPEN
            \<longrightarrow> ops = [WsClose ClientToProxy 1001 m]) \<and>
         (\<not> fromServer \<and> clientToProxyWebSocket ctx = CLOSED \<and> upstream = OPEN
            \<longrightarrow> ops = [WsClose ProxyToServer 1001 m]) \<and>
         err = None \<and>
         closedByServer ctx' = Some fromServer \<and>
         closedByClient ctx' = Some (\<not> fromServer) \<and>
         flag_set (closedByServer ctx') \<noteq> flag_set (closedByClient ctx') \<and>
         onWebSocketClose ctx' fromServer2 c2 m2 = (ctx', [], None)"
proof -
  from fresh upstream run
  have ctx': "ctx' = ctx\<lparr>closedByServer := Some fromServer, closedByClient := Some (\<not> fromServer)\<rparr>"
    by (auto simp: onWebSocketClose_def Let_def split: if_splits)
  have flags: "flag_set (closedByServer ctx') \<noteq> flag_set (closedByClient ctx')"
    by (simp add: ctx' flag_set_def)
  then have later: "onWebSocketClose ctx' fromServer2 c2 m2 = (ctx', [], None)"
    by (auto simp: onWebSocketClose_def)
  from code fresh upstream run
  have "err = None"
    by (auto simp: onWebSocketClose_def Let_def split: if_splits)
  moreover from code fresh upstream run
  have "fromServer \<and> upstream = CLOSED \<and> clientToProxyWebSocket ctx = OPEN
          \<longrightarrow> ops = [WsClose ClientToProxy 1001 m]"
    by (auto simp: onWebSocketClose_def Let_def split: if_splits)
  moreover from code fresh upstream run
  have "\<not> fromServer \<and> clientToProxyWebSocket ctx = CLOSED \<and> upstream = OPEN
          \<longrightarrow> ops = [WsClose ProxyToServer 1001 m]"
    by (auto simp: onWebSocketClose_def Let_def split: if_splits)
  ultimately show ?thesis
    using flags later by (simp add: ctx')
qed

theorem onWebSocketClose_first_close_witness:
  "onWebSocketClose
     \<lparr>clientToProxyWebSocket = OPEN, proxyToServerWebSocket = Some CLOSED,
      closedByServer = None, closedByClient = None\<rparr> True 1005 ''bye''
   = (\<lparr>clientToProxyWebSocket = OPEN, proxyToServerWebSocket = Some CLOSED,
       closedByServer = Some True, closedByClient = Some False\<rparr>,
      [WsClose ClientToProxy 1001 ''bye''], None) \<and>
   onWebSocketClose
     \<lparr>clientToProxyWebSocket = OPEN, proxyToServerWebSocket = Some CLOSED,
      closedByServer = Some True, closedByClient = Some False\<rparr> False 1000 ''again''
   = (\<lparr>clientToProxyWebSocket = OPEN, proxyToServerWebSocket = Some CLOSED,
       closedByServer = Some True, closedByClient = Some False\<rparr>, [], None)"
proof -
  let ?ctx = "\<lparr>clientToProxyWebSocket = OPEN, proxyToServerWebSocket = Some CLOSED,
      closedByServer = None, closedByClient = None\<rparr>"
  let ?ctx' = "\<lparr>clientToProxyWebSocket = OPEN, proxyToServerWebSocket = Some CLOSED,
       closedByServer = Some True, closedByClient = Some False\<rparr>"
  have run: "onWebSocketClose ?ctx True 1005 ''bye'' = (?ctx', [WsClose ClientToProxy 1001 ''bye''], None)"
    by (simp add: onWebSocketClose_def flag_set_def)
  have "onWebSocketClose ?ctx' False 1000 ''again'' = (?ctx', [], None)"
    using onWebSocketClose_first_close [of 1005 "?ctx" CLOSED True "''bye''" "?ctx'"
        "[WsClose ClientToProxy 1001 ''bye'']" None False 1000 "''again''"] run
    by (simp add: flag_set_def)
  with run show ?thesis by simp
qed

subsection \<open>Agent selection\<close>




text \<open>
  C6. Every call of the callback installed on the PAC agent calls the original callback
  with options whose \<open>servername\<close> is \<open>ctx.hostname\<close>: when no options are given, when
  the given options have no \<open>servername\<close>, and when they have another one. The other
  options are passed on as given.
\<close>

theorem pac_agent_callback_servername:
  "pac_agent_callback ctx connect r opts fn = connect r (pac_options ctx opts) fn \<and>
   pac_agent_callback ctx (\<lambda>r' opts' fn'. opts' ''servername'') r opts fn
     = Some (JStr (ctx_hostname ctx)) \<and>
   pac_options ctx opts ''servername'' = Some (JStr (ctx_hostname ctx)) \<and>
   pac_options ctx None = [''servername'' \<mapsto> JStr (ctx_hostname ctx)] \<and>
   pac_options ctx (Some given) = given(''servername'' \<mapsto> JStr (ctx_hostname ctx))"
  by (auto simp: pac_agent_callback_def pac_options_def Object_assign_def)

subsection \<open>The system-proxy resolver\<close>

text \<open>
  C9, evaluated. The operating system has the HTTP proxy 127.0.0.1:8080 and a PAC URL,
  and the environment has \<open>HTTP_PROXY\<close>. When \<open>scutil\<close> prints these settings alone, the
  resolver returns them, the setting of the operating system before the environment.
  When \<open>scutil\<close> prints the list of exceptions first, the loop over the lines ends at the
  line that closes this block, the settings after it are not read, and the resolver
  returns the value of the environment and no PAC URL.
\<close>

theorem getSystemProxy_nested_block:
  "http (getSystemProxy (Some scutil_http) (map_of [(''HTTP_PROXY'', ''http://env:1'')]))
     = Some ''http://127.0.0.1:8080'' \<and>
   pac (getSystemProxy (Some scutil_http) (map_of [(''HTTP_PROXY'', ''http://env:1'')]))
     = Some ''http://wpad/proxy.pac'' \<and>
   http (getSystemProxy (Some scutil_exceptions) (map_of [(''HTTP_PROXY'', ''http://env:1'')]))
     = Some ''http://env:1'' \<and>
   pac (getSystemProxy (Some scutil_exceptions) (map_of [(''HTTP_PROXY'', ''http://env:1'')]))
     = None"
proof -
  have host: "scutil_settings (Some scutil_http) ''HTTPProxy'' = Some ''127.0.0.1''"
    by code_simp
  have port: "scutil_settings (Some scutil_http) ''HTTPPort'' = Some ''8080''"
    by code_simp
  have url: "scutil_settings (Some scutil_http) ''ProxyAutoConfigURLString''
               = Some ''http://wpad/proxy.pac''"
    by code_simp
  have lost: "scutil_settings (Some scutil_exceptions) ''HTTPProxy'' = None"
    by code_simp
  have gone: "scutil_settings (Some scutil_exceptions) ''ProxyAutoConfigURLString'' = None"
    by code_simp
  show ?thesis
    by (simp add: getSystemProxy_def Let_def nonempty_def js_or_def truthy_def js_str_def
          host port url lost gone)
qed

subsection \<open>The CONNECT registry\<close>









lemma registry_nextTick [simp]: "connectRequests (app (nextTick t w)) = connectRequests (app w)"
  by (simp add: nextTick_def)

lemma registry_set_pool [simp]:
  "connectRequests (app (set_pool name entry w)) = connectRequests (app w)"
  by (simp add: set_pool_def)

lemma registry_set_semaphore [simp]:
  "connectRequests (app (set_semaphore key sem w)) = connectRequests (app w)"
  by (simp add: set_semaphore_def)

lemma registry_call [simp]: "connectRequests (app (call ops w)) = connectRequests (app w)"
  by (simp add: call_def)













lemma accepted_accepted [simp]: "accepted (accepted s) = s"
  by (simp add: accepted_def)




subsection \<open>The alias entry\<close>

text \<open>
  C1, evaluated. After a listener has been stored under the key \<open>*.example.com\<close>, a
  CONNECT to \<open>a.example.com\<close> takes the alias branch. The entry installed for
  \<open>a.example.com\<close> has the whole entry of the wildcard in its \<open>port\<close> field, not the
  number 8443; that object is what \<open>net.connect\<close> is given as the port, and
  \<open>net.connect\<close> throws a TypeError, so the tunnel is not spliced to any port.
\<close>

theorem alias_port_is_the_wildcard_entry:
  "map_of (pool_of (world_of alias_run)) ''*.example.com''
     = Some (SslServer (Some 0) (Some 0) (PortNumber 8443)) \<and>
   map_of (pool_of (world_of alias_run)) ''a.example.com''
     = Some (SslServer None None (PortObject (SslServer (Some 0) (Some 0) (PortNumber 8443)))) \<and>
   last (trace (world_of alias_run))
     = NetConnect (PortObject (SslServer (Some 0) (Some 0) (PortNumber 8443)))
         (tls_connect ''a.example.com:443'' 50002) \<and>
   thrown alias_run = Some TypeError"
  by (simp add: alias_run_def run_defs)

subsection \<open>Dispatch on the first byte\<close>

text \<open>
  C7, evaluated. The second tunnel of the run above starts with the byte 0x16 and its
  hostname has no pool entry. The dispatcher takes the SSL pool path, and there the alias
  branch: no listener is created for \<open>a.example.com\<close>, the only call of \<open>net.connect\<close>
  for the tunnel is given an object as the port and throws, and so the tunnel reaches
  neither a pool listener nor the plain listener.
\<close>

theorem tls_tunnel_reaches_no_listener:
  "is_tls (connect_head (tls_connect ''a.example.com:443'' 50002)) \<and>
   created (trace (world_of alias_run)) = [''*.example.com''] \<and>
   connect_ports (tls_connect ''a.example.com:443'' 50002) (trace (world_of alias_run))
     = [PortObject (SslServer (Some 0) (Some 0) (PortNumber 8443))] \<and>
   pending (world_of alias_run) = [LeaveTask ''*.example.com''] \<and>
   thrown alias_run = Some TypeError"
  by (simp add: alias_run_def run_defs)

subsection \<open>Shutdown twice\<close>

text \<open>
  C4, evaluated. The first \<open>close\<close> closes the outer listener and the pool listener
  and deletes \<open>httpServer\<close>. The second \<open>close\<close> makes no call at all, but it throws
  a TypeError, reading \<open>close\<close> of the deleted \<open>httpServer\<close>.
\<close>

theorem close_twice_throws:
  "thrown (close one_listener) = None \<and>
   trace closed_once = trace one_listener @ [CloseHttpServer, CloseListener 0] \<and>
   thrown (close closed_once) = Some TypeError \<and>
   trace (world_of (close closed_once)) = trace closed_once"
  by (simp add: closed_once_def one_listener_def close_def run_defs)

subsection \<open>Single flight\<close>

text \<open>The invariant of the pool holds after every handler that returns.\<close>

lemma created_append: "created (xs @ ys) = created xs @ created ys"
  by (induction xs rule: created.induct) auto

lemma holders_Cons: "holders (t # ts) key = (if task_key t = key then 1 else 0) + holders ts key"
  by (simp add: holders_def)

lemma holders_snoc: "holders (ts @ [t]) key = holders ts key + (if task_key t = key then 1 else 0)"
  by (simp add: holders_def)

lemma holders_remove:
  "i < length ts \<Longrightarrow>
   holders (ts ! i # take i ts @ drop (Suc i) ts) key = holders ts key"
proof -
  assume "i < length ts"
  then have "ts = take i ts @ ts ! i # drop (Suc i) ts"
    by (simp add: id_take_nth_drop)
  then have "holders ts key = holders (take i ts @ ts ! i # drop (Suc i) ts) key"
    by simp
  then show ?thesis by (simp add: holders_def)
qed

lemma set_remove:
  "i < length ts \<Longrightarrow> set (ts ! i # take i ts @ drop (Suc i) ts) = set ts"
proof -
  assume "i < length ts"
  then have "ts = take i ts @ ts ! i # drop (Suc i) ts"
    by (simp add: id_take_nth_drop)
  then have "set ts = set (take i ts @ ts ! i # drop (Suc i) ts)"
    by simp
  then show ?thesis by auto
qed

lemma queued_same:
  "sslSemaphores (app w') = sslSemaphores (app w) \<Longrightarrow> queued w' h = queued w h"
  by (simp add: queued_def)

lemma pool_inv_remove:
  "i < length (pending w) \<Longrightarrow> pool_inv S H (pending w) w \<Longrightarrow>
   pool_inv S H (pending w ! i # take i (pending w) @ drop (Suc i) (pending w))
     (w\<lparr>pending := take i (pending w) @ drop (Suc i) (pending w)\<rparr>)"
  unfolding pool_inv_def sem_ok_def
  by (simp only: holders_remove set_remove) (simp add: pool_of_def queued_def)

lemma pool_get_None: "pool_get pool name = None \<Longrightarrow> map_of pool name = None"
  by (simp add: pool_get_def split: option.splits if_splits)

lemma pool_get_own:
  "pool_get pool name = Some entry \<Longrightarrow> port entry = PortNumber n \<Longrightarrow>
   map_of pool name = Some entry"
  by (auto simp: pool_get_def inherited_value_def split: option.splits if_splits)

lemma pool_get_cases:
  "pool_get pool name = Some entry \<Longrightarrow>
   map_of pool name = Some entry \<or>
   (map_of pool name = None \<and> name \<in> set Object_prototype_names)"
  by (auto simp: pool_get_def split: option.splits if_splits)

lemma sem_ok_holders:
  "holders ts' key = holders ts key \<Longrightarrow> sem_ok H ts' key so = sem_ok H ts key so"
  by (cases so) (simp_all add: sem_ok_def)

lemma sem_ok_le1: "sem_ok H ts key so \<Longrightarrow> holders ts key \<le> 1"
  by (cases so) (simp_all add: sem_ok_def)

lemma holders_pos: "t \<in> set ts \<Longrightarrow> task_key t = key \<Longrightarrow> 1 \<le> holders ts key"
proof -
  assume "t \<in> set ts" "task_key t = key"
  then have "filter (\<lambda>t. task_key t = key) ts \<noteq> []"
    by (auto simp: filter_empty_conv)
  then show ?thesis by (simp add: holders_def Suc_le_eq)
qed

lemma binds_key: "binds h t \<Longrightarrow> task_key t = wildcardHost h"
  by (cases t) (auto simp: key_of_def)

lemma binds_not_takes: "binds h t \<Longrightarrow> \<not> takes h' t"
  by (cases t) auto

lemma pool_invD:
  assumes "pool_inv S H ts w"
  shows "sslServers (app w) \<noteq> None" "httpServer (app w) \<noteq> None"
    and "sem_ok H ts key (sslSemaphores (app w) key)"
    and "distinct (created (trace w))"
    and "h \<in> set (created (trace w)) \<Longrightarrow>
           map_of (pool_of w) h \<noteq> None \<or> (\<exists>t \<in> set ts. binds h t)"
    and "set (created (trace w)) \<subseteq> H"
    and "t \<in> set ts \<Longrightarrow> set (task_hosts t) \<subseteq> H"
    and "t \<in> set ts \<Longrightarrow> binds h t \<Longrightarrow> h \<in> set (created (trace w))"
    and "map_of (pool_of w) name = Some entry \<Longrightarrow>
           name \<in> set (created (trace w)) \<and> (\<exists>n. port entry = PortNumber n)"
    and "h \<in> S \<Longrightarrow>
           h \<in> set (created (trace w)) \<or> (\<exists>t \<in> set ts. takes h t) \<or> queued w h"
  using assms unfolding pool_inv_def by blast+

lemma pool_inv_trans:
  assumes inv: "pool_inv S H ts w"
    and servers: "sslServers (app w') \<noteq> None" "httpServer (app w') \<noteq> None"
    and sems: "\<And>key. sem_ok H ts' key (sslSemaphores (app w') key)"
    and cr: "created (trace w') = created (trace w) @ new"
      "set new \<inter> set (created (trace w)) = {}" "distinct new" "set new \<subseteq> H"
    and pool: "\<And>h. map_of (pool_of w) h \<noteq> None \<Longrightarrow> map_of (pool_of w') h \<noteq> None"
    and bind: "\<And>h t. t \<in> set ts \<Longrightarrow> binds h t \<Longrightarrow>
        map_of (pool_of w') h \<noteq> None \<or> (\<exists>t' \<in> set ts'. binds h t')"
    and new: "\<And>h. h \<in> set new \<Longrightarrow>
        map_of (pool_of w') h \<noteq> None \<or> (\<exists>t \<in> set ts'. binds h t)"
    and hosts: "\<And>t. t \<in> set ts' \<Longrightarrow> set (task_hosts t) \<subseteq> H"
    and bound: "\<And>h t. t \<in> set ts' \<Longrightarrow> binds h t \<Longrightarrow> h \<in> set (created (trace w) @ new)"
    and entries: "\<And>name entry. map_of (pool_of w') name = Some entry \<Longrightarrow>
        name \<in> set (created (trace w) @ new) \<and> (\<exists>n. port entry = PortNumber n)"
    and seen: "\<And>h. h \<in> S' \<Longrightarrow>
        h \<in> set (created (trace w) @ new) \<or> (\<exists>t \<in> set ts'. takes h t) \<or> queued w' h"
  shows "pool_inv S' H ts' w'"
proof -
  note d = pool_invD [OF inv]
  have "distinct (created (trace w'))"
    using d(4) cr(1,2,3) by auto
  moreover have "map_of (pool_of w') h \<noteq> None \<or> (\<exists>t \<in> set ts'. binds h t)"
    if "h \<in> set (created (trace w'))" for h
  proof (cases "h \<in> set new")
    case True
    then show ?thesis by (rule new)
  next
    case False
    with that cr(1) have "h \<in> set (created (trace w))" by simp
    from d(5) [OF this] show ?thesis
      using pool bind by blast
  qed
  moreover have "set (created (trace w')) \<subseteq> H"
    using d(6) cr(1,4) by simp
  ultimately show ?thesis
    unfolding pool_inv_def using servers sems hosts bound entries seen cr(1) by auto
qed

lemma run_ok_threw:
  assumes inv: "pool_inv S H ts w"
    and "created (trace w') = created (trace w)" "\<exists>ops. trace w' = trace w @ ops"
    and "\<not> safe_hosts H"
  shows "run_ok S' H w (Threw e w')"
  using pool_invD(4,6) [OF inv] assms(2-) by (simp add: run_ok_def)

lemma prototype_names_no_dot: "n \<in> set Object_prototype_names \<Longrightarrow> CHR ''.'' \<notin> set n"
  by (auto simp: Object_prototype_names_def)

lemma wildcardHost_not_inherited:
  assumes "h \<notin> set Object_prototype_names"
  shows "wildcardHost h \<notin> set Object_prototype_names"
proof
  assume inh: "wildcardHost h \<in> set Object_prototype_names"
  then have "CHR ''.'' \<notin> set (wildcardHost h)"
    by (rule prototype_names_no_dot)
  then have "h = wildcardHost h"
    by (rule wildcardHost_eq_no_dot) simp
  with inh assms show False by simp
qed

lemma makeConnection_number:
  "makeConnection (PortNumber n) c w = Done (call [NetConnect (PortNumber n) c] w)"
  by (simp add: makeConnection_def)

lemma makeConnection_other:
  "\<forall>n. p \<noteq> PortNumber n \<Longrightarrow>
   makeConnection p c w = Threw TypeError (call [NetConnect p c] w)"
  by (cases p) (auto simp: makeConnection_def)

lemma take_callback_ok:
  assumes inv: "pool_inv S H (TakeTask c # pending w) w"
  shows "run_ok S H w (take_callback c w)"
proof -
  note d = pool_invD [OF inv]
  from d(1) obtain pool where pool: "sslServers (app w) = Some pool" by blast
  from d(2) obtain outer where outer: "httpServer (app w) = Some outer" by blast
  have pl: "pool_of w = pool" using pool by (simp add: pool_of_def)
  have hostH: "host_of c \<in> H" using d(7) [of "TakeTask c"] by simp
  have keep: "holders (pending w @ [t]) key = holders (TakeTask c # pending w) key"
    if "task_key t = key_of c" for t key
    using that by (simp add: holders_Cons holders_snoc)
  have sems: "sem_ok H (pending w @ [t]) key (sslSemaphores (app w) key)"
    if "task_key t = key_of c" for t key
    using sem_ok_holders [OF keep [OF that]] d(3) by simp
  show ?thesis
  proof (cases "pool_get pool (host_of c)")
    case (Some entry)
    let ?w1 = "nextTick (LeaveTask (key_of c)) w"
    have run: "take_callback c w = makeConnection (port entry) c ?w1"
      using pool Some by (simp add: take_callback_def Let_def host_of_def key_of_def)
    show ?thesis
    proof (cases "\<exists>n. port entry = PortNumber n")
      case True
      then obtain n where n: "port entry = PortNumber n" by blast
      let ?w' = "call [NetConnect (PortNumber n) c] ?w1"
      from pool_get_own [OF Some n] pl have own: "map_of (pool_of w) (host_of c) = Some entry"
        by simp
      have here: "host_of c \<in> set (created (trace w))"
        using d(9) [OF own] by simp
      have app: "app ?w' = app w" and pend: "pending ?w' = pending w @ [LeaveTask (key_of c)]"
        and tr: "trace ?w' = trace w @ [NetConnect (PortNumber n) c]"
        and pl': "pool_of ?w' = pool_of w"
        by (simp_all add: call_def nextTick_def pool_of_def)
      have "pool_inv S H (pending ?w') ?w'"
      proof (rule pool_inv_trans [OF inv, where new = "[]"])
        show "sem_ok H (pending ?w') key (sslSemaphores (app ?w') key)" for key
          using sems [of "LeaveTask (key_of c)" key] by (simp add: app pend)
        show "map_of (pool_of ?w') h \<noteq> None \<or> (\<exists>t' \<in> set (pending ?w'). binds h t')"
          if "t \<in> set (TakeTask c # pending w)" "binds h t" for h t
          using that by (auto simp: pend)
        show "set (task_hosts t) \<subseteq> H" if "t \<in> set (pending ?w')" for t
          using d(7) [of t] that by (auto simp: pend)
        show "h \<in> set (created (trace w) @ [])" if "t \<in> set (pending ?w')" "binds h t" for h t
          using d(8) [of t h] that by (auto simp: pend)
        show "name \<in> set (created (trace w) @ []) \<and> (\<exists>n. port entry' = PortNumber n)"
          if "map_of (pool_of ?w') name = Some entry'" for name entry'
          using d(9) [of name entry'] that by (simp add: pl')
        show "h \<in> set (created (trace w) @ []) \<or> (\<exists>t \<in> set (pending ?w'). takes h t) \<or>
            queued ?w' h" if "h \<in> S" for h
          using d(10) [OF that] here queued_same [of ?w' w h]
          by (auto simp: pend app)
      qed (use d in \<open>simp_all add: app tr created_append pl'\<close>)
      then show ?thesis using run n tr
        by (simp add: run_ok_def makeConnection_number)
    next
      case False
      then have no: "\<forall>n. port entry \<noteq> PortNumber n" by blast
      let ?w' = "call [NetConnect (port entry) c] ?w1"
      have "map_of pool (host_of c) \<noteq> Some entry"
        using d(9) [of "host_of c" entry] pl False by auto
      with pool_get_cases [OF Some] have "host_of c \<in> set Object_prototype_names" by blast
      with hostH have unsafe: "\<not> safe_hosts H" by (auto simp: safe_hosts_def)
      have "run_ok S H w (Threw TypeError ?w')"
        by (rule run_ok_threw [OF inv _ _ unsafe])
           (simp_all add: call_def nextTick_def created_append)
      then show ?thesis using run by (simp add: makeConnection_other [OF no])
    qed
  next
    case None
    note absent = None
    show ?thesis
    proof (cases "pool_get pool (key_of c)")
      case (Some entry)
      let ?shared = "SslServer None None (PortObject entry)"
      let ?w' = "call [NetConnect (PortObject entry) c]
                   (set_pool (host_of c) ?shared (nextTick (LeaveTask (key_of c)) w))"
      have run: "take_callback c w = Threw TypeError ?w'"
        using pool absent Some
        by (simp add: take_callback_def Let_def host_of_def key_of_def makeConnection_def)
      have other: "key_of c \<noteq> host_of c"
        using absent Some by auto
      have "key_of c \<in> H"
      proof (cases "map_of pool (key_of c)")
        case (Some own)
        with d(9) [of "key_of c" own] pl d(6) show ?thesis by auto
      next
        case None
        with pool_get_cases [OF Some] have inh: "key_of c \<in> set Object_prototype_names"
          by simp
        then have "CHR ''.'' \<notin> set (key_of c)" by (rule prototype_names_no_dot)
        then have "host_of c = key_of c"
          by (rule wildcardHost_eq_no_dot) (simp add: key_of_def)
        with other show ?thesis by simp
      qed
      with other hostH have unsafe: "\<not> safe_hosts H"
        by (auto simp: safe_hosts_def key_of_def)
      have "run_ok S H w (Threw TypeError ?w')"
        by (rule run_ok_threw [OF inv _ _ unsafe])
           (simp_all add: call_def nextTick_def set_pool_def created_append)
      then show ?thesis using run by simp
    next
      case None
      let ?l = "fresh w"
      let ?w' = "nextTick (ListenTask ?l c)
                   (call [Listen ?l (address outer)]
                      (call [CreateServer ?l [host_of c]] (w\<lparr>fresh := Suc ?l\<rparr>)))"
      have run: "take_callback c w = Done ?w'"
        using pool outer absent None
        by (simp add: take_callback_def Let_def host_of_def key_of_def call_def)
      have app: "app ?w' = app w" and pend: "pending ?w' = pending w @ [ListenTask ?l c]"
        and tr: "trace ?w' = trace w @ [CreateServer ?l [host_of c], Listen ?l (address outer)]"
        and pl': "pool_of ?w' = pool_of w"
        by (simp_all add: call_def nextTick_def pool_of_def)
      have new: "host_of c \<notin> set (created (trace w))"
      proof
        assume "host_of c \<in> set (created (trace w))"
        from d(5) [OF this] pool_get_None [OF absent] pl
        obtain t where t: "t \<in> set (TakeTask c # pending w)" "binds (host_of c) t"
          by auto
        then have "t \<in> set (pending w)" by auto
        moreover from t(2) have "task_key t = key_of c"
          by (simp add: binds_key key_of_def)
        ultimately have "1 \<le> holders (pending w) (key_of c)"
          by (rule holders_pos)
        then have "2 \<le> holders (TakeTask c # pending w) (key_of c)"
          by (simp add: holders_Cons)
        with sem_ok_le1 [OF d(3) [of "key_of c"]] show False by simp
      qed
      have "pool_inv S H (pending ?w') ?w'"
      proof (rule pool_inv_trans [OF inv, where new = "[host_of c]"])
        show "sem_ok H (pending ?w') key (sslSemaphores (app ?w') key)" for key
          using sems [of "ListenTask ?l c" key] by (simp add: app pend)
        show "map_of (pool_of ?w') h \<noteq> None \<or> (\<exists>t' \<in> set (pending ?w'). binds h t')"
          if "t \<in> set (TakeTask c # pending w)" "binds h t" for h t
          using that by (auto simp: pend)
        show "map_of (pool_of ?w') h \<noteq> None \<or> (\<exists>t \<in> set (pending ?w'). binds h t)"
          if "h \<in> set [host_of c]" for h
          using that by (auto simp: pend)
        show "set (task_hosts t) \<subseteq> H" if "t \<in> set (pending ?w')" for t
          using d(7) [of t] hostH that by (auto simp: pend)
        show "h \<in> set (created (trace w) @ [host_of c])"
          if "t \<in> set (pending ?w')" "binds h t" for h t
          using d(8) [of t h] that by (auto simp: pend)
        show "name \<in> set (created (trace w) @ [host_of c]) \<and> (\<exists>n. port entry' = PortNumber n)"
          if "map_of (pool_of ?w') name = Some entry'" for name entry'
          using d(9) [of name entry'] that by (simp add: pl')
        show "h \<in> set (created (trace w) @ [host_of c]) \<or>
            (\<exists>t \<in> set (pending ?w'). takes h t) \<or> queued ?w' h" if "h \<in> S" for h
          using d(10) [OF that] queued_same [of ?w' w h]
          by (auto simp: pend app)
      qed (use d new hostH in \<open>simp_all add: app tr created_append pl'\<close>)
      then show ?thesis using run tr by (simp add: run_ok_def)
    qed
  qed
qed

lemma run_ok_base:
  "trace w1 = trace w @ ops \<Longrightarrow> run_ok S H w1 r \<Longrightarrow> run_ok S H w r"
  by (cases r) (auto simp: run_ok_def)

lemma pool_inv_seen: "pool_inv S H ts w \<Longrightarrow> S' \<subseteq> S \<Longrightarrow> pool_inv S' H ts w"
  unfolding pool_inv_def by blast

lemma run_ok_seen: "run_ok S H w r \<Longrightarrow> S' \<subseteq> S \<Longrightarrow> run_ok S' H w r"
  by (cases r) (auto simp: run_ok_def intro: pool_inv_seen)

lemma run_ok_threw_seen: "run_ok S H w (Threw e w') \<Longrightarrow> run_ok S' H w (Threw e w')"
  by (simp add: run_ok_def)

lemma sem_leave_ok:
  assumes inv: "pool_inv S H (LeaveTask key # pending w) w"
  shows "run_ok S H w (sem_leave key w)"
proof -
  note d = pool_invD [OF inv]
  have held: "holders (LeaveTask key # pending w) key = 1 + holders (pending w) key"
    by (simp add: holders_Cons)
  from d(3) [of key] held obtain sem where sem: "sslSemaphores (app w) key = Some sem"
    by (cases "sslSemaphores (app w) key") (simp_all add: sem_ok_def)
  from d(3) [of key] sem held
  have cap: "capacity sem = 1" and cur: "current sem = 1" and idle: "holders (pending w) key = 0"
    and items: "\<And>c. c \<in> set (queue sem) \<Longrightarrow> key_of c = key \<and> host_of c \<in> H"
    by (auto simp: sem_ok_def)
  have other: "holders (pending w) k = holders (LeaveTask key # pending w) k" if "k \<noteq> key" for k
    using that by (simp add: holders_Cons)
  show ?thesis
  proof (cases "queue sem")
    case Nil
    let ?w' = "set_semaphore key (sem\<lparr>current := 0\<rparr>) w"
    have run: "sem_leave key w = Done ?w'"
      using sem cur Nil by (simp add: sem_leave_def Let_def)
    have "pool_inv S H (pending ?w') ?w'"
    proof (rule pool_inv_trans [OF inv, where new = "[]"])
      show "sem_ok H (pending ?w') k (sslSemaphores (app ?w') k)" for k
      proof (cases "k = key")
        case True
        then show ?thesis
          using cap idle Nil by (simp add: set_semaphore_def sem_ok_def)
      next
        case False
        with sem_ok_holders [OF other [OF False]] d(3) [of k] show ?thesis
          by (simp add: set_semaphore_def)
      qed
      show "map_of (pool_of ?w') h \<noteq> None \<or> (\<exists>t' \<in> set (pending ?w'). binds h t')"
        if "t \<in> set (LeaveTask key # pending w)" "binds h t" for h t
        using that by (auto simp: set_semaphore_def)
      show "set (task_hosts t) \<subseteq> H" if "t \<in> set (pending ?w')" for t
        using d(7) [of t] that by (auto simp: set_semaphore_def)
      show "h \<in> set (created (trace w) @ [])" if "t \<in> set (pending ?w')" "binds h t" for h t
        using d(8) [of t h] that by (auto simp: set_semaphore_def)
      show "name \<in> set (created (trace w) @ []) \<and> (\<exists>n. port entry = PortNumber n)"
        if "map_of (pool_of ?w') name = Some entry" for name entry
        using d(9) [of name entry] that by (simp add: set_semaphore_def pool_of_def)
      show "h \<in> set (created (trace w) @ []) \<or> (\<exists>t \<in> set (pending ?w'). takes h t) \<or>
          queued ?w' h" if "h \<in> S" for h
      proof -
        from d(10) [OF that] consider "h \<in> set (created (trace w))"
          | t where "t \<in> set (pending w)" "takes h t" | "queued w h"
          by auto
        then show ?thesis
        proof cases
          case 3
          then obtain k s c where q: "sslSemaphores (app w) k = Some s" "c \<in> set (queue s)"
              "host_of c = h"
            by (auto simp: queued_def)
          with sem Nil have "k \<noteq> key" by auto
          with q have "queued ?w' h"
            by (auto simp: queued_def set_semaphore_def)
          then show ?thesis by simp
        qed (auto simp: set_semaphore_def)
      qed
    qed (use d in \<open>simp_all add: set_semaphore_def pool_of_def\<close>)
    moreover have "trace ?w' = trace w @ []"
      by (simp add: set_semaphore_def)
    ultimately show ?thesis using run by (simp add: run_ok_def)
  next
    case (Cons item rest)
    let ?w' = "nextTick (TakeTask item)
                 (set_semaphore key (sem\<lparr>current := 0, queue := rest, current := 1\<rparr>) w)"
    have run: "sem_leave key w = Done ?w'"
      using sem cur cap Cons by (simp add: sem_leave_def Let_def)
    have item: "key_of item = key" "host_of item \<in> H"
      using items [of item] Cons by simp_all
    have "pool_inv S H (pending ?w') ?w'"
    proof (rule pool_inv_trans [OF inv, where new = "[]"])
      show "sem_ok H (pending ?w') k (sslSemaphores (app ?w') k)" for k
      proof (cases "k = key")
        case True
        then show ?thesis
          using cap idle Cons item items
          by (simp add: set_semaphore_def nextTick_def sem_ok_def holders_snoc)
      next
        case False
        then have "holders (pending ?w') k = holders (LeaveTask key # pending w) k"
          using item by (simp add: nextTick_def set_semaphore_def holders_snoc holders_Cons)
        from sem_ok_holders [OF this] d(3) [of k] False show ?thesis
          by (simp add: set_semaphore_def nextTick_def)
      qed
      show "map_of (pool_of ?w') h \<noteq> None \<or> (\<exists>t' \<in> set (pending ?w'). binds h t')"
        if "t \<in> set (LeaveTask key # pending w)" "binds h t" for h t
        using that by (auto simp: set_semaphore_def nextTick_def)
      show "set (task_hosts t) \<subseteq> H" if "t \<in> set (pending ?w')" for t
        using d(7) [of t] item that by (auto simp: set_semaphore_def nextTick_def)
      show "h \<in> set (created (trace w) @ [])" if "t \<in> set (pending ?w')" "binds h t" for h t
        using d(8) [of t h] that by (auto simp: set_semaphore_def nextTick_def)
      show "name \<in> set (created (trace w) @ []) \<and> (\<exists>n. port entry = PortNumber n)"
        if "map_of (pool_of ?w') name = Some entry" for name entry
        using d(9) [of name entry] that by (simp add: set_semaphore_def nextTick_def pool_of_def)
      show "h \<in> set (created (trace w) @ []) \<or> (\<exists>t \<in> set (pending ?w'). takes h t) \<or>
          queued ?w' h" if "h \<in> S" for h
      proof -
        from d(10) [OF that] consider "h \<in> set (created (trace w))"
          | t where "t \<in> set (pending w)" "takes h t" | "queued w h"
          by auto
        then show ?thesis
        proof cases
          case 3
          then obtain k s c where q: "sslSemaphores (app w) k = Some s" "c \<in> set (queue s)"
              "host_of c = h"
            by (auto simp: queued_def)
          show ?thesis
          proof (cases "k = key")
            case False
            with q have "queued ?w' h"
              by (auto simp: queued_def set_semaphore_def nextTick_def)
            then show ?thesis by simp
          next
            case True
            with q sem Cons have "c = item \<or> c \<in> set rest" by auto
            then show ?thesis
            proof
              assume "c = item"
              with q(3) have "takes h (TakeTask item)" by simp
              then show ?thesis by (auto simp: nextTick_def set_semaphore_def)
            next
              assume "c \<in> set rest"
              with q(3) have "queued ?w' h"
                by (auto simp: queued_def set_semaphore_def nextTick_def)
              then show ?thesis by simp
            qed
          qed
        qed (auto simp: set_semaphore_def nextTick_def)
      qed
    qed (use d in \<open>simp_all add: set_semaphore_def nextTick_def pool_of_def\<close>)
    moreover have "trace ?w' = trace w @ []"
      by (simp add: set_semaphore_def nextTick_def)
    ultimately show ?thesis using run by (simp add: run_ok_def)
  qed
qed

lemma listen_callback_ok:
  assumes inv: "pool_inv S H (ListenTask l c # pending w) w"
  shows "run_ok S H w (listen_callback l c p w)"
proof -
  note d = pool_invD [OF inv]
  from d(1) obtain pool where pool: "sslServers (app w) = Some pool" by blast
  let ?entry = "SslServer (Some l) (Some l) (PortNumber p)"
  let ?w' = "call [NetConnect (PortNumber p) c]
               (nextTick (LeaveTask (key_of c)) (set_pool (host_of c) ?entry w))"
  have run: "listen_callback l c p w = Done ?w'"
    using pool
    by (simp add: listen_callback_def Let_def host_of_def key_of_def makeConnection_def)
  have servers: "sslServers (app ?w') \<noteq> None" "httpServer (app ?w') = httpServer (app w)"
    and sm: "sslSemaphores (app ?w') = sslSemaphores (app w)"
    and pend: "pending ?w' = pending w @ [LeaveTask (key_of c)]"
    and tr: "trace ?w' = trace w @ [NetConnect (PortNumber p) c]"
    by (simp_all add: call_def nextTick_def set_pool_def)
  have pl': "map_of (pool_of ?w') = (map_of (pool_of w))(host_of c \<mapsto> ?entry)"
    by (simp add: call_def nextTick_def set_pool_def pool_of_def update_conv')
  have here: "host_of c \<in> set (created (trace w))"
    using d(8) [of "ListenTask l c" "host_of c"] by simp
  have "pool_inv S H (pending ?w') ?w'"
  proof (rule pool_inv_trans [OF inv, where new = "[]"])
    show "sem_ok H (pending ?w') key (sslSemaphores (app ?w') key)" for key
    proof -
      have "holders (pending ?w') key = holders (ListenTask l c # pending w) key"
        by (simp add: pend holders_Cons holders_snoc)
      from sem_ok_holders [OF this] d(3) [of key] show ?thesis
        by (simp add: sm)
    qed
    show "map_of (pool_of ?w') h \<noteq> None \<or> (\<exists>t' \<in> set (pending ?w'). binds h t')"
      if "t \<in> set (ListenTask l c # pending w)" "binds h t" for h t
      using that by (auto simp: pend pl')
    show "set (task_hosts t) \<subseteq> H" if "t \<in> set (pending ?w')" for t
      using d(7) [of t] that by (auto simp: pend)
    show "h \<in> set (created (trace w) @ [])" if "t \<in> set (pending ?w')" "binds h t" for h t
      using d(8) [of t h] that by (auto simp: pend)
    show "name \<in> set (created (trace w) @ []) \<and> (\<exists>n. port entry = PortNumber n)"
      if "map_of (pool_of ?w') name = Some entry" for name entry
      using d(9) [of name entry] that here by (auto simp: pl' split: if_splits)
    show "h \<in> set (created (trace w) @ []) \<or> (\<exists>t \<in> set (pending ?w'). takes h t) \<or>
        queued ?w' h" if "h \<in> S" for h
      using d(10) [OF that] queued_same [OF sm, of h] by (auto simp: pend)
  qed (use d servers in \<open>simp_all add: tr created_append pl'\<close>)
  then show ?thesis using run tr by (simp add: run_ok_def)
qed

lemma sem_take_ok:
  assumes inv: "pool_inv S H (pending w) w" and host: "host_of c \<in> H"
  shows "run_ok (insert (host_of c) S) H w (sem_take (key_of c) c w)"
proof -
  note d = pool_invD [OF inv]
  let ?key = "key_of c"
  let ?sem = "case sslSemaphores (app w) ?key of None \<Rightarrow> new_semaphore 1 | Some existing \<Rightarrow> existing"
  have cap: "capacity ?sem = 1" and cur: "current ?sem = int (holders (pending w) ?key)"
    and le: "holders (pending w) ?key \<le> 1"
    and items: "\<And>c'. c' \<in> set (queue ?sem) \<Longrightarrow> key_of c' = ?key \<and> host_of c' \<in> H"
    using d(3) [of ?key]
    by (auto simp: sem_ok_def new_semaphore_def split: option.splits)
  have still: "queued (set_semaphore ?key sem' w) h"
    if "queued w h" "\<And>s. sslSemaphores (app w) ?key = Some s \<Longrightarrow> set (queue s) \<subseteq> set (queue sem')"
    for h sem'
  proof -
    from that(1) obtain k s c' where q: "sslSemaphores (app w) k = Some s" "c' \<in> set (queue s)"
        "host_of c' = h"
      by (auto simp: queued_def)
    show ?thesis
    proof (cases "k = ?key")
      case True
      with q that(2) [of s] have "c' \<in> set (queue sem')" by auto
      with q(3) show ?thesis
        unfolding queued_def set_semaphore_def by (intro exI [of _ ?key] exI [of _ sem']) auto
    next
      case False
      with q show ?thesis
        unfolding queued_def set_semaphore_def by (intro exI [of _ k] exI [of _ s]) auto
    qed
  qed
  show ?thesis
  proof (cases "holders (pending w) ?key = 0")
    case False
    with le have one: "holders (pending w) ?key = 1" by simp
    let ?sem' = "?sem\<lparr>queue := queue ?sem @ [c]\<rparr>"
    let ?w' = "set_semaphore ?key ?sem' w"
    have run: "sem_take ?key c w = Done ?w'"
      using cap cur one by (simp add: sem_take_def Let_def)
    have "pool_inv (insert (host_of c) S) H (pending ?w') ?w'"
    proof (rule pool_inv_trans [OF inv, where new = "[]"])
      show "sem_ok H (pending ?w') k (sslSemaphores (app ?w') k)" for k
      proof (cases "k = ?key")
        case True
        then show ?thesis
          using cap cur one items host by (auto simp: set_semaphore_def sem_ok_def)
      next
        case False
        with d(3) [of k] show ?thesis
          by (simp add: set_semaphore_def)
      qed
      show "set (task_hosts t) \<subseteq> H" if "t \<in> set (pending ?w')" for t
        using d(7) [of t] that by (auto simp: set_semaphore_def)
      show "h \<in> set (created (trace w) @ [])" if "t \<in> set (pending ?w')" "binds h t" for h t
        using d(8) [of t h] that by (auto simp: set_semaphore_def)
      show "name \<in> set (created (trace w) @ []) \<and> (\<exists>n. port entry = PortNumber n)"
        if "map_of (pool_of ?w') name = Some entry" for name entry
        using d(9) [of name entry] that by (simp add: set_semaphore_def pool_of_def)
      show "h \<in> set (created (trace w) @ []) \<or> (\<exists>t \<in> set (pending ?w'). takes h t) \<or>
          queued ?w' h" if "h \<in> insert (host_of c) S" for h
      proof (cases "h = host_of c")
        case True
        have "queued ?w' h"
          unfolding queued_def set_semaphore_def
          by (intro exI [of _ ?key] exI [of _ ?sem'] exI [of _ c]) (simp add: True)
        then show ?thesis by simp
      next
        case False
        with that have "h \<in> S" by simp
        from d(10) [OF this] still [of h ?sem'] show ?thesis
          by (auto simp: set_semaphore_def)
      qed
    qed (use d in \<open>auto simp: set_semaphore_def pool_of_def\<close>)
    moreover have "trace ?w' = trace w @ []"
      by (simp add: set_semaphore_def)
    ultimately show ?thesis using run by (simp add: run_ok_def)
  next
    case True
    let ?sem' = "?sem\<lparr>current := current ?sem + 1\<rparr>"
    let ?w1 = "set_semaphore ?key ?sem' w"
    have run: "sem_take ?key c w = take_callback c ?w1"
      using cap cur True by (simp add: sem_take_def Let_def)
    have "pool_inv (insert (host_of c) S) H (TakeTask c # pending ?w1) ?w1"
    proof (rule pool_inv_trans [OF inv, where new = "[]"])
      show "sem_ok H (TakeTask c # pending ?w1) k (sslSemaphores (app ?w1) k)" for k
      proof (cases "k = ?key")
        case True
        then show ?thesis
          using cap cur \<open>holders (pending w) ?key = 0\<close> items
          by (auto simp: set_semaphore_def sem_ok_def holders_Cons)
      next
        case False
        then have "holders (TakeTask c # pending ?w1) k = holders (pending w) k"
          by (simp add: set_semaphore_def holders_Cons)
        from sem_ok_holders [OF this] d(3) [of k] False show ?thesis
          by (simp add: set_semaphore_def)
      qed
      show "set (task_hosts t) \<subseteq> H" if "t \<in> set (TakeTask c # pending ?w1)" for t
        using d(7) [of t] host that by (auto simp: set_semaphore_def)
      show "h \<in> set (created (trace w) @ [])"
        if "t \<in> set (TakeTask c # pending ?w1)" "binds h t" for h t
        using d(8) [of t h] that by (auto simp: set_semaphore_def)
      show "name \<in> set (created (trace w) @ []) \<and> (\<exists>n. port entry = PortNumber n)"
        if "map_of (pool_of ?w1) name = Some entry" for name entry
        using d(9) [of name entry] that by (simp add: set_semaphore_def pool_of_def)
      show "h \<in> set (created (trace w) @ []) \<or>
          (\<exists>t \<in> set (TakeTask c # pending ?w1). takes h t) \<or> queued ?w1 h"
        if "h \<in> insert (host_of c) S" for h
      proof (cases "h = host_of c")
        case True
        then show ?thesis by simp
      next
        case False
        with that have "h \<in> S" by simp
        from d(10) [OF this] still [of h ?sem'] show ?thesis
          by (auto simp: set_semaphore_def)
      qed
    qed (use d in \<open>auto simp: set_semaphore_def pool_of_def\<close>)
    from take_callback_ok [OF this] have "run_ok (insert (host_of c) S) H ?w1 (take_callback c ?w1)" .
    then have "run_ok (insert (host_of c) S) H w (take_callback c ?w1)"
      by (rule run_ok_base [rotated]) (simp add: set_semaphore_def)
    with run show ?thesis by simp
  qed
qed

lemma connect_data_ok:
  assumes inv: "pool_inv S H (pending w) w"
    and host: "event_hosts (Connect c) \<subseteq> H"
  shows "run_ok (S \<union> event_hosts (Connect c)) H w (onHttpServerConnectData c w)"
proof -
  note d = pool_invD [OF inv]
  from d(1) obtain pool where pool: "sslServers (app w) = Some pool" by blast
  from d(2) obtain outer where outer: "httpServer (app w) = Some outer" by blast
  have pl: "pool_of w = pool" using pool by (simp add: pool_of_def)
  have plain: "pool_inv S' H (pending (call [NetConnect q c] w)) (call [NetConnect q c] w)"
    if covered: "\<And>h. h \<in> S' \<Longrightarrow> h \<in> S \<or> h \<in> set (created (trace w))" for q S'
  proof (rule pool_inv_trans [OF inv, where new = "[]"])
    show "sem_ok H (pending (call [NetConnect q c] w)) key
            (sslSemaphores (app (call [NetConnect q c] w)) key)" for key
      using d(3) [of key] by (simp add: call_def)
    show "set (task_hosts t) \<subseteq> H" if "t \<in> set (pending (call [NetConnect q c] w))" for t
      using d(7) [of t] that by (simp add: call_def)
    show "h \<in> set (created (trace w) @ [])"
      if "t \<in> set (pending (call [NetConnect q c] w))" "binds h t" for h t
      using d(8) [of t h] that by (simp add: call_def)
    show "name \<in> set (created (trace w) @ []) \<and> (\<exists>n. port entry = PortNumber n)"
      if "map_of (pool_of (call [NetConnect q c] w)) name = Some entry" for name entry
      using d(9) [of name entry] that by (simp add: call_def pool_of_def)
    show "h \<in> set (created (trace w) @ []) \<or>
        (\<exists>t \<in> set (pending (call [NetConnect q c] w)). takes h t) \<or>
        queued (call [NetConnect q c] w) h" if "h \<in> S'" for h
      using covered [OF that] d(10) [of h] queued_same [of "call [NetConnect q c] w" w h]
      by (auto simp: call_def)
  qed (use d in \<open>auto simp: call_def pool_of_def created_append\<close>)
  have ext: "\<exists>ops. trace (call [NetConnect q c] w) = trace w @ ops" for q
    by (simp add: call_def)
  show ?thesis
  proof (cases "is_tls (connect_head c)")
    case False
    then have "onHttpServerConnectData c w
        = Done (call [NetConnect (PortNumber (http_port outer)) c] w)"
      using outer by (simp add: onHttpServerConnectData_def makeConnection_def)
    with plain [of S "PortNumber (http_port outer)"] ext False show ?thesis
      by (simp add: run_ok_def)
  next
    case True
    with host have hostH: "host_of c \<in> H" by simp
    show ?thesis
    proof (cases "pool_get pool (host_of c)")
      case (Some entry)
      with True pool have run: "onHttpServerConnectData c w = makeConnection (port entry) c w"
        by (simp add: onHttpServerConnectData_def Let_def host_of_def)
      show ?thesis
      proof (cases "\<exists>n. port entry = PortNumber n")
        case True
        then obtain n where n: "port entry = PortNumber n" by blast
        from pool_get_own [OF Some n] pl d(9) [of "host_of c" entry]
        have "host_of c \<in> set (created (trace w))" by simp
        with plain [of "insert (host_of c) S" "PortNumber n"] ext \<open>is_tls (connect_head c)\<close>
        show ?thesis
          by (auto simp: run n makeConnection_number run_ok_def)
      next
        case False
        then have no: "\<forall>n. port entry \<noteq> PortNumber n" by blast
        have "map_of pool (host_of c) \<noteq> Some entry"
          using d(9) [of "host_of c" entry] pl False by auto
        with pool_get_cases [OF Some] have "host_of c \<in> set Object_prototype_names" by blast
        with hostH have unsafe: "\<not> safe_hosts H" by (auto simp: safe_hosts_def)
        have "run_ok (S \<union> event_hosts (Connect c)) H w
            (Threw TypeError (call [NetConnect (port entry) c] w))"
          by (rule run_ok_threw [OF inv _ _ unsafe]) (simp_all add: call_def created_append)
        then show ?thesis by (simp add: run makeConnection_other [OF no])
      qed
    next
      case None
      with True pool have "onHttpServerConnectData c w = sem_take (key_of c) c w"
        by (simp add: onHttpServerConnectData_def Let_def host_of_def key_of_def)
      with sem_take_ok [OF inv hostH] True show ?thesis by simp
    qed
  qed
qed

lemma step_ok:
  assumes inv: "pool_inv S H (pending w) w"
    and host: "event_hosts e \<subseteq> H"
  shows "run_ok (S \<union> event_hosts e) H w (step e w)"
proof (cases e)
  case (Connect c)
  with connect_data_ok [OF inv, of c] host show ?thesis
    by (simp add: step_def)
next
  case (Run i p)
  show ?thesis
  proof (cases "i < length (pending w)")
    case False
    with Run inv show ?thesis by (simp add: step_def run_ok_def)
  next
    case True
    let ?w' = "w\<lparr>pending := take i (pending w) @ drop (Suc i) (pending w)\<rparr>"
    from pool_inv_remove [OF True inv]
    have rem: "pool_inv S H (pending w ! i # pending ?w') ?w'" by simp
    have tr: "trace ?w' = trace w @ []" by simp
    show ?thesis
    proof (cases "pending w ! i")
      case (TakeTask c)
      with rem have "run_ok S H ?w' (take_callback c ?w')"
        by (simp add: take_callback_ok)
      from run_ok_base [OF tr this] TakeTask Run True show ?thesis
        by (simp add: step_def Let_def)
    next
      case (LeaveTask key)
      with rem have "run_ok S H ?w' (sem_leave key ?w')"
        by (simp add: sem_leave_ok)
      from run_ok_base [OF tr this] LeaveTask Run True show ?thesis
        by (simp add: step_def Let_def)
    next
      case (ListenTask l c)
      with rem have "run_ok S H ?w' (listen_callback l c p ?w')"
        by (simp add: listen_callback_ok)
      from run_ok_base [OF tr this] ListenTask Run True show ?thesis
        by (simp add: step_def Let_def)
    qed
  qed
qed

lemma tls_hosts_Cons: "tls_hosts (e # evs) = event_hosts e \<union> tls_hosts evs"
  by (simp add: tls_hosts_def)

lemma exec_ok:
  assumes "pool_inv S H (pending w) w" and "tls_hosts evs \<subseteq> H"
  shows "run_ok (S \<union> tls_hosts evs) H w (exec evs w)"
  using assms
proof (induction evs arbitrary: w S)
  case Nil
  then show ?case by (simp add: run_ok_def tls_hosts_def)
next
  case (Cons e evs)
  from Cons.prems(2) have sub: "event_hosts e \<subseteq> H" "tls_hosts evs \<subseteq> H"
    by (simp_all add: tls_hosts_Cons)
  from step_ok [OF Cons.prems(1) sub(1)]
  have first: "run_ok (S \<union> event_hosts e) H w (step e w)" .
  show ?case
  proof (cases "step e w")
    case (Done w1)
    with first obtain ops where w1: "pool_inv (S \<union> event_hosts e) H (pending w1) w1"
        "trace w1 = trace w @ ops"
      by (auto simp: run_ok_def)
    from Cons.IH [OF w1(1) sub(2)]
    have "run_ok (S \<union> event_hosts e \<union> tls_hosts evs) H w1 (exec evs w1)" .
    from run_ok_base [OF w1(2) this] Done show ?thesis
      by (simp add: tls_hosts_Cons Un_assoc)
  next
    case (Threw err w1)
    with first show ?thesis
      by (simp add: run_ok_threw_seen)
  qed
qed

lemma listening_inv: "pool_inv {} H (pending (listening host p)) (listening host p)"
  by (simp add: pool_inv_def listening_def listen_def new_vanessa_def sem_ok_def holders_def
        pool_of_def)

lemma exec_append:
  "exec (xs @ ys) w = (case exec xs w of Done w' \<Rightarrow> exec ys w' | Threw e w' \<Rightarrow> Threw e w')"
  by (induction xs arbitrary: w) (simp_all split: outcome.splits)

lemma exec_runs_idle:
  "\<forall>e \<in> set runs. \<forall>c. e \<noteq> Connect c \<Longrightarrow> pending w = [] \<Longrightarrow> exec runs w = Done w"
proof (induction runs)
  case Nil
  show ?case by simp
next
  case (Cons e runs)
  then obtain i p where "e = Run i p" by (cases e) auto
  with Cons show ?case by (simp add: step_def)
qed

lemma first_connect_creates:
  assumes tls: "is_tls (connect_head c)" and own: "host_of c \<notin> set Object_prototype_names"
  shows "\<exists>w'. onHttpServerConnectData c (listening host p) = Done w' \<and>
           created (trace w') = [host_of c]"
proof -
  have none: "pool_get [] (host_of c) = None" "pool_get [] (key_of c) = None"
    using own wildcardHost_not_inherited [OF own]
    by (simp_all add: pool_get_def key_of_def)
  then show ?thesis
    using tls
    by (simp add: onHttpServerConnectData_def sem_take_def take_callback_def Let_def
          listening_def listen_def new_vanessa_def new_semaphore_def set_semaphore_def
          call_def nextTick_def host_of_def [symmetric] key_of_def [symmetric])
qed

lemma same_host_creates:
  assumes conn: "\<And>c. Connect c \<in> set evs \<Longrightarrow> is_tls (connect_head c) \<and> host_of c = h"
    and some: "\<exists>c. Connect c \<in> set evs"
    and own: "h \<notin> set Object_prototype_names"
    and run: "exec evs (listening host p) = Done w"
  shows "created (trace w) \<noteq> []"
proof -
  from some have "\<exists>e \<in> set evs. \<exists>c. e = Connect c" by blast
  then obtain runs e rest where split: "evs = runs @ e # rest" "\<exists>c. e = Connect c"
      "\<forall>e' \<in> set runs. \<not> (\<exists>c. e' = Connect c)"
    by (auto dest!: split_list_first_prop)
  then obtain c where e: "e = Connect c" by blast
  with split(1) conn [of c] own have c: "is_tls (connect_head c)"
      "host_of c \<notin> set Object_prototype_names"
    by auto
  have idle: "exec runs (listening host p) = Done (listening host p)"
    by (rule exec_runs_idle) (use split(3) in \<open>auto simp: listening_def\<close>)
  from first_connect_creates [OF c, of host p]
  obtain w1 where w1: "onHttpServerConnectData c (listening host p) = Done w1"
      "created (trace w1) = [host_of c]"
    by blast
  from run split(1) e idle w1(1) have rest: "exec rest w1 = Done w"
    by (simp add: exec_append step_def)
  from step_ok [OF listening_inv, of "Connect c" UNIV host p] w1(1)
  have "pool_inv ({} \<union> event_hosts (Connect c)) UNIV (pending w1) w1"
    by (simp add: step_def run_ok_def)
  from exec_ok [OF this, of rest] rest obtain ops where "trace w = trace w1 @ ops"
    by (auto simp: run_ok_def)
  with w1(2) show ?thesis by (simp add: created_append)
qed

lemma distinct_singleton: "distinct xs \<Longrightarrow> set xs \<subseteq> {h} \<Longrightarrow> xs \<noteq> [] \<Longrightarrow> xs = [h]"
proof (cases xs)
  case Nil
  assume "xs \<noteq> []"
  with Nil show ?thesis by simp
next
  case (Cons x ys)
  assume "distinct xs" "set xs \<subseteq> {h}"
  with Cons have "x = h" "set ys \<subseteq> {h}" "h \<notin> set ys" by auto
  then have "ys = []" by (cases ys) auto
  with Cons \<open>x = h\<close> show ?thesis by simp
qed

lemma no_tasks_not_queued:
  assumes "pool_inv S H [] w"
  shows "\<not> queued w h"
proof
  assume "queued w h"
  then obtain k s c where q: "sslSemaphores (app w) k = Some s" "c \<in> set (queue s)"
    by (auto simp: queued_def)
  from pool_invD(3) [OF assms, of k] q show False
    by (auto simp: sem_ok_def holders_def)
qed

lemma settled_run:
  assumes inv: "pool_inv S H [] w" and "H \<subseteq> S"
  shows "set (created (trace w)) = H" "fst ` set (pool_of w) = H"
proof -
  note d = pool_invD [OF inv]
  have "H \<subseteq> set (created (trace w))"
  proof
    fix h assume "h \<in> H"
    with assms(2) have "h \<in> S" by blast
    from d(10) [OF this] no_tasks_not_queued [OF inv, of h]
    show "h \<in> set (created (trace w))" by simp
  qed
  with d(6) show all: "set (created (trace w)) = H" by blast
  have "fst ` set (pool_of w) = set (created (trace w))"
  proof
    show "fst ` set (pool_of w) \<subseteq> set (created (trace w))"
    proof
      fix name assume "name \<in> fst ` set (pool_of w)"
      then obtain entry where "map_of (pool_of w) name = Some entry"
        by (auto simp: weak_map_of_SomeI dest!: weak_map_of_SomeI)
      from d(9) [OF this] show "name \<in> set (created (trace w))" by simp
    qed
    show "set (created (trace w)) \<subseteq> fst ` set (pool_of w)"
    proof
      fix h assume "h \<in> set (created (trace w))"
      from d(5) [OF this] have "map_of (pool_of w) h \<noteq> None" by simp
      then show "h \<in> fst ` set (pool_of w)"
        by (simp add: map_of_eq_None_iff)
    qed
  qed
  with all show "fst ` set (pool_of w) = H" by simp
qed

text \<open>
  C2, as stated, fails. Two CONNECTs to \<open>a.example.com\<close> and \<open>b.example.com\<close>, which
  share the wildcard key \<open>*.example.com\<close>, arrive with an empty pool. The second waits
  for the semaphore, and when it gets the slot the pool holds an entry for
  \<open>a.example.com\<close> only, so the re-check finds nothing and a second listener is
  created.
\<close>

theorem single_flight_counterexample:
  "wildcardHost ''a.example.com'' = wildcardHost ''b.example.com'' \<and>
   thrown two_hosts_run = None \<and>
   created (trace (world_of two_hosts_run)) = [''a.example.com'', ''b.example.com'']"
  by (simp add: two_hosts_run_def run_defs)

text \<open>
  C2, amended. A proxy starts listening, and then CONNECTs arrive and scheduled callbacks
  run, in any order. No hostname ever has two listeners created, also in a run that
  ends with an exception. No handler throws when no TLS tunnel is for a name inherited
  from \<open>Object.prototype\<close> and none is for a hostname whose wildcard key is another
  hostname that receives a TLS tunnel. When the run has returned and no callback is
  left, the hostnames with a created listener, and also the keys of the pool, are
  exactly the hostnames that received a TLS tunnel: every hostname has one listener of
  its own, stored under the hostname, also when it shares its wildcard key with another
  one, and nothing is stored under a wildcard key that received no tunnel itself. When
  all CONNECTs are TLS tunnels to one hostname (which is no name of
  \<open>Object.prototype\<close>) and there is at least one, the run returns and exactly one
  listener has been created. The callback of \<open>listen\<close> stores the pool entry of the
  hostname and leaves the semaphore as it is: the slot is released by a callback
  scheduled after the store.
\<close>

theorem single_flight_per_hostname:
  "distinct (created (trace (world_of (exec evs (listening host p))))) \<and>
   (safe_hosts (tls_hosts evs) \<longrightarrow> thrown (exec evs (listening host p)) = None) \<and>
   (\<forall>w. exec evs (listening host p) = Done w \<and> pending w = [] \<longrightarrow>
        set (created (trace w)) = tls_hosts evs \<and> fst ` set (pool_of w) = tls_hosts evs) \<and>
   ((\<forall>c. Connect c \<in> set evs \<longrightarrow> is_tls (connect_head c) \<and> host_of c = h) \<and>
    (\<exists>c. Connect c \<in> set evs) \<and> h \<notin> set Object_prototype_names \<longrightarrow>
      (\<exists>w. exec evs (listening host p) = Done w \<and> created (trace w) = [h])) \<and>
   (sslServers (app w0) \<noteq> None \<longrightarrow>
      thrown (listen_callback l c0 n w0) = None \<and>
      map_of (pool_of (world_of (listen_callback l c0 n w0))) (host_of c0)
        = Some (SslServer (Some l) (Some l) (PortNumber n)) \<and>
      sslSemaphores (app (world_of (listen_callback l c0 n w0))) = sslSemaphores (app w0) \<and>
      pending (world_of (listen_callback l c0 n w0))
        = pending w0 @ [LeaveTask (wildcardHost (host_of c0))])"
proof -
  let ?w0 = "listening host p"
  let ?T = "tls_hosts evs"
  have any: "distinct (created (trace (world_of (exec evs ?w0))))"
    using exec_ok [OF listening_inv, of evs UNIV host p]
    by (cases "exec evs ?w0") (auto simp: run_ok_def world_of_def dest: pool_invD(4))
  have ok: "run_ok ?T ?T ?w0 (exec evs ?w0)"
    using exec_ok [OF listening_inv, of evs ?T host p] by simp
  have calm: "thrown (exec evs ?w0) = None" if "safe_hosts ?T"
    using ok that by (cases "exec evs ?w0") (auto simp: run_ok_def thrown_def)
  have settled: "set (created (trace w)) = ?T \<and> fst ` set (pool_of w) = ?T"
    if "exec evs ?w0 = Done w" "pending w = []" for w
  proof -
    from ok that have "pool_inv ?T ?T [] w" by (simp add: run_ok_def)
    from settled_run [OF this] show ?thesis by simp
  qed
  have one: "\<exists>w. exec evs ?w0 = Done w \<and> created (trace w) = [h]"
    if conn: "\<forall>c. Connect c \<in> set evs \<longrightarrow> is_tls (connect_head c) \<and> host_of c = h"
      and some: "\<exists>c. Connect c \<in> set evs" and own: "h \<notin> set Object_prototype_names"
  proof -
    have hosts: "?T = {h}"
    proof
      show "?T \<subseteq> {h}"
      proof
        fix x assume "x \<in> ?T"
        then obtain e where e: "e \<in> set evs" "x \<in> event_hosts e"
          by (auto simp: tls_hosts_def)
        from e(2) obtain c where "e = Connect c" by (cases e) auto
        with e conn show "x \<in> {h}" by (auto split: if_splits)
      qed
      from some obtain c where "Connect c \<in> set evs" by blast
      with conn have "h \<in> event_hosts (Connect c)" by simp
      with \<open>Connect c \<in> set evs\<close> show "{h} \<subseteq> ?T"
        by (auto simp: tls_hosts_def simp del: event_hosts.simps)
    qed
    with own have "safe_hosts ?T" by (simp add: safe_hosts_def)
    with ok obtain w where w: "exec evs ?w0 = Done w" "pool_inv ?T ?T (pending w) w"
      by (cases "exec evs ?w0") (auto simp: run_ok_def)
    from same_host_creates [OF _ some own w(1)] conn
    have "created (trace w) \<noteq> []" by blast
    with pool_invD(4,6) [OF w(2)] hosts have "created (trace w) = [h]"
      by (simp add: distinct_singleton)
    with w(1) show ?thesis by blast
  qed
  have bound: "sslServers (app w0) \<noteq> None \<longrightarrow>
      thrown (listen_callback l c0 n w0) = None \<and>
      map_of (pool_of (world_of (listen_callback l c0 n w0))) (host_of c0)
        = Some (SslServer (Some l) (Some l) (PortNumber n)) \<and>
      sslSemaphores (app (world_of (listen_callback l c0 n w0))) = sslSemaphores (app w0) \<and>
      pending (world_of (listen_callback l c0 n w0))
        = pending w0 @ [LeaveTask (wildcardHost (host_of c0))]"
    by (auto simp: listen_callback_def Let_def world_of_def thrown_def makeConnection_def
          call_def nextTick_def set_pool_def pool_of_def update_conv' host_of_def)
  from any calm settled one bound show ?thesis by blast
qed

theorem single_flight_per_hostname_witness:
  "thrown (exec settled_events (listening ''127.0.0.1'' 8080)) = None \<and>
   set (created (trace (world_of (exec settled_events (listening ''127.0.0.1'' 8080)))))
     = {''a.example.com'', ''b.example.com''} \<and>
   fst ` set (pool_of (world_of (exec settled_events (listening ''127.0.0.1'' 8080))))
     = {''a.example.com'', ''b.example.com''} \<and>
   distinct (created (trace (world_of (exec settled_events (listening ''127.0.0.1'' 8080))))) \<and>
   created (trace (world_of (exec same_host_events (listening ''127.0.0.1'' 8080))))
     = [''a.example.com''] \<and>
   map_of (pool_of (world_of (listen_callback 0 (tls_connect ''a.example.com:443'' 50001) 8443
       (listening ''127.0.0.1'' 8080)))) ''a.example.com''
     = Some (SslServer (Some 0) (Some 0) (PortNumber 8443)) \<and>
   pending (world_of (listen_callback 0 (tls_connect ''a.example.com:443'' 50001) 8443
       (listening ''127.0.0.1'' 8080)))
     = [LeaveTask ''*.example.com'']"
proof -
  let ?w0 = "listening ''127.0.0.1'' 8080"
  let ?c = "tls_connect ''a.example.com:443'' 50001"
  note inst = single_flight_per_hostname [of settled_events "''127.0.0.1''" 8080]
  note inst' = single_flight_per_hostname [of same_host_events "''127.0.0.1''" 8080
      "''a.example.com''"]
  note inst'' = single_flight_per_hostname [where ?w0.0 = ?w0 and l = 0 and ?c0.0 = ?c
      and n = 8443]
  have hosts: "tls_hosts settled_events = {''a.example.com'', ''b.example.com''}"
    by (auto simp: tls_hosts_def settled_events_def tls_connect_def is_tls_def host_of_def
          hostname_of_url_def)
  have "safe_hosts {''a.example.com'', ''b.example.com''}"
    by (simp add: safe_hosts_def Object_prototype_names_def wildcardHost_def match_label_def)
  with hosts have safe: "safe_hosts (tls_hosts settled_events)" by (simp only:)
  from inst [THEN conjunct2, THEN conjunct1] safe
  have ran: "thrown (exec settled_events ?w0) = None" by (rule mp)
  have idle: "pending (world_of (exec settled_events ?w0)) = []"
    by (simp add: settled_events_def run_defs)
  from ran have finished: "exec settled_events ?w0 = Done (world_of (exec settled_events ?w0))"
    by (cases "exec settled_events ?w0") (simp_all add: thrown_def world_of_def)
  from inst [THEN conjunct2, THEN conjunct2, THEN conjunct1] have settled: "\<forall>w. exec settled_events ?w0 = Done w \<and> pending w = [] \<longrightarrow>
      set (created (trace w)) = tls_hosts settled_events \<and>
      fst ` set (pool_of w) = tls_hosts settled_events" .
  from settled finished idle
  have both: "set (created (trace (world_of (exec settled_events ?w0)))) = tls_hosts settled_events \<and>
      fst ` set (pool_of (world_of (exec settled_events ?w0))) = tls_hosts settled_events"
    by blast
  with hosts have first: "set (created (trace (world_of (exec settled_events ?w0))))
      = {''a.example.com'', ''b.example.com''}"
    and pool: "fst ` set (pool_of (world_of (exec settled_events ?w0)))
      = {''a.example.com'', ''b.example.com''}"
    by (simp_all only:)
  from inst [THEN conjunct1]
  have second: "distinct (created (trace (world_of (exec settled_events ?w0))))" .
  have conn: "\<forall>c. Connect c \<in> set same_host_events \<longrightarrow>
      is_tls (connect_head c) \<and> host_of c = ''a.example.com''"
    by (auto simp: same_host_events_def tls_connect_def is_tls_def hostname_of_url_def
          host_of_def)
  have some: "\<exists>c. Connect c \<in> set same_host_events"
    by (auto simp: same_host_events_def)
  have own: "''a.example.com'' \<notin> set Object_prototype_names"
    by (simp add: Object_prototype_names_def)
  from inst' [THEN conjunct2, THEN conjunct2, THEN conjunct2, THEN conjunct1] have same: "(\<forall>c. Connect c \<in> set same_host_events \<longrightarrow>
        is_tls (connect_head c) \<and> host_of c = ''a.example.com'') \<and>
      (\<exists>c. Connect c \<in> set same_host_events) \<and>
      ''a.example.com'' \<notin> set Object_prototype_names \<longrightarrow>
      (\<exists>w. exec same_host_events ?w0 = Done w \<and> created (trace w) = [''a.example.com''])" .
  from same conn some own
  obtain w where "exec same_host_events ?w0 = Done w" "created (trace w) = [''a.example.com'']"
    by blast
  then have third: "created (trace (world_of (exec same_host_events ?w0))) = [''a.example.com'']"
    by (simp add: world_of_def)
  have open_pool: "sslServers (app ?w0) \<noteq> None"
    by (simp add: listening_def listen_def)
  from inst'' [THEN conjunct2, THEN conjunct2, THEN conjunct2, THEN conjunct2] open_pool
  have bound: "thrown (listen_callback 0 ?c 8443 ?w0) = None \<and>
      map_of (pool_of (world_of (listen_callback 0 ?c 8443 ?w0))) (host_of ?c)
        = Some (SslServer (Some 0) (Some 0) (PortNumber 8443)) \<and>
      sslSemaphores (app (world_of (listen_callback 0 ?c 8443 ?w0))) = sslSemaphores (app ?w0) \<and>
      pending (world_of (listen_callback 0 ?c 8443 ?w0))
        = pending ?w0 @ [LeaveTask (wildcardHost (host_of ?c))]"
    by (rule mp)
  have host: "host_of ?c = ''a.example.com''"
    by (simp add: host_of_def tls_connect_def hostname_of_url_def)
  have key: "wildcardHost ''a.example.com'' = ''*.example.com''"
    by (simp add: wildcardHost_def match_label_def)
  have none: "pending ?w0 = []" by (simp add: listening_def)
  from bound host key none
  have fourth: "map_of (pool_of (world_of (listen_callback 0 ?c 8443 ?w0))) ''a.example.com''
        = Some (SslServer (Some 0) (Some 0) (PortNumber 8443))"
    and fifth: "pending (world_of (listen_callback 0 ?c 8443 ?w0)) = [LeaveTask ''*.example.com'']"
    by simp_all
  from ran first pool second third fourth fifth show ?thesis by blast
qed

end
